theory Spec2Isabelle
  imports
    Complex_Main
    "HOL-Library.AList"
    "HOL-Library.Char_ord"
    "HOL-Library.List_Lexorder"
    "HOL-Library.Multiset"
    "HOL-Library.Product_Lexorder"
begin

section \<open>Values, errors and the Python library\<close>

text \<open>
  A record of the engine is a Python dict from field names to scalar values
  (CSV rows hold strings, JSON objects hold strings, numbers, booleans and null).

  A Python string is a list of code points; a \<open>char\<close> is a code point below 256
  (Latin-1), and \<open>strip\<close> and \<open>lower\<close> below are Python's on all of them.

  A Python float is a finite double, given as the real number it denotes. Comparison,
  negation, \<open>abs\<close> and \<open>max\<close> of doubles are exact. The sum, the product and the
  quotient of two doubles are rounded: the arithmetic with which \<open>_score_pair\<close>
  aggregates the scores is a parameter of the model, like the string functions of the
  library, so that what is proved of the aggregate holds for the rounded operations,
  in the order in which the code applies them.
\<close>

datatype pyval = VNone | VStr string | VInt int | VFloat real | VBool bool

type_synonym pyrecord = "string \<rightharpoonup> pyval"

datatype error =
    KeyError string "string list"
  | IndexError
  | ValueError
  | TypeError
  | ZeroDivisionError
  | OverflowError

text \<open>
  Functions of the Python standard library that the repository calls and that are
  taken as parameters: \<open>str\<close> of a float, \<open>float\<close> and \<open>int\<close> of a string
  (\<open>None\<close> where Python raises \<open>ValueError\<close>), the three date parsers of
  \<open>_parse_date\<close>, each giving the proleptic ordinal of the date it reads, and the
  arithmetic of doubles: \<open>x + y\<close>, \<open>x * y\<close>, \<open>x / y\<close> (for \<open>y\<close> not 0) and the builtin
  \<open>sum\<close> over a non-empty sequence of floats.
\<close>

record pylib =
  float_str :: "real \<Rightarrow> string"
  str_float :: "string \<Rightarrow> real option"
  str_int :: "string \<Rightarrow> int option"
  fromisoformat :: "string \<Rightarrow> int option"
  strptime :: "string \<Rightarrow> string \<Rightarrow> int option"
  dateutil_parse :: "string \<Rightarrow> int option"
  float_add :: "real \<Rightarrow> real \<Rightarrow> real"
  float_mul :: "real \<Rightarrow> real \<Rightarrow> real"
  float_div :: "real \<Rightarrow> real \<Rightarrow> real"
  float_sum :: "real list \<Rightarrow> real"

text \<open>The builtin \<open>sum\<close>: the integer 0 for an empty sequence.\<close>

definition py_sum :: "pylib \<Rightarrow> real list \<Rightarrow> real" where
  "py_sum lib xs = (if xs = [] then 0 else float_sum lib xs)"

definition digit_char :: "nat \<Rightarrow> char" where
  "digit_char d = char_of (48 + d)"

fun str_nat :: "nat \<Rightarrow> string" where
  "str_nat n = (if n < 10 then [digit_char n] else str_nat (n div 10) @ [digit_char (n mod 10)])"

definition str_int_dec :: "int \<Rightarrow> string" where
  "str_int_dec i = (if i < 0 then CHR ''-'' # str_nat (nat (- i)) else str_nat (nat i))"

text \<open>Python's \<open>str(value)\<close>.\<close>

fun py_str :: "pylib \<Rightarrow> pyval \<Rightarrow> string" where
  "py_str lib VNone = ''None''"
| "py_str lib (VStr s) = s"
| "py_str lib (VInt i) = str_int_dec i"
| "py_str lib (VFloat x) = float_str lib x"
| "py_str lib (VBool b) = (if b then ''True'' else ''False'')"

text \<open>\<open>d.get(key)\<close> and \<open>d.get(key, default)\<close> on a record.\<close>

definition rec_get :: "pyrecord \<Rightarrow> string \<Rightarrow> pyval" where
  "rec_get d k = (case d k of None \<Rightarrow> VNone | Some v \<Rightarrow> v)"

definition rec_get_default :: "pyrecord \<Rightarrow> string \<Rightarrow> pyval \<Rightarrow> pyval" where
  "rec_get_default d k dflt = (case d k of None \<Rightarrow> dflt | Some v \<Rightarrow> v)"

text \<open>
  \<open>str.strip()\<close> and \<open>str.lower()\<close>. The code points below 256 that Python takes for
  whitespace are U+0009 to U+000D, U+001C to U+0020, U+0085 and U+00A0; those that
  \<open>lower\<close> changes are \<open>A\<close> to \<open>Z\<close> and U+00C0 to U+00DE without the multiplication sign
  U+00D7, each moved up by 32.
\<close>

definition is_space :: "char \<Rightarrow> bool" where
  "is_space c = ((of_char c :: nat) \<in> {9, 10, 11, 12, 13, 28, 29, 30, 31, 32, 133, 160})"

definition strip :: "string \<Rightarrow> string" where
  "strip s = rev (dropWhile is_space (rev (dropWhile is_space s)))"

definition lower_char :: "char \<Rightarrow> char" where
  "lower_char c =
     (let n = (of_char c :: nat) in
      if (65 \<le> n \<and> n \<le> 90) \<or> (192 \<le> n \<and> n \<le> 222 \<and> n \<noteq> 215) then char_of (n + 32) else c)"

definition lower :: "string \<Rightarrow> string" where
  "lower s = map lower_char s"

section \<open>models.py\<close>

datatype Cardinality = ONE_TO_MANY | MANY_TO_ONE

record FieldComparatorConfig =
  fc_left_field :: string
  fc_right_field :: string
  fc_comparator :: string
  fc_weight :: real
  fc_params :: "(string \<rightharpoonup> pyval) option"
  fc_must :: bool
  fc_threshold :: "real option"

record Rule =
  rule_name :: string
  rule_description :: "string option"
  rule_priority :: int
  rule_cardinality :: Cardinality
  rule_match_threshold :: real
  rule_stop_on_first_rule_match :: bool
  rule_fields :: "FieldComparatorConfig list"

record RuleSet =
  rules :: "Rule list"

text \<open>
  The field validators of \<open>FieldComparatorConfig\<close> and \<open>Rule\<close>; the second takes the
  library for its \<open>sum\<close>.
\<close>

definition validate_threshold :: "real option \<Rightarrow> error + real option" where
  "validate_threshold v =
     (case v of None \<Rightarrow> Inr v
      | Some t \<Rightarrow> if \<not> (0 \<le> t \<and> t \<le> 1) then Inl ValueError else Inr v)"

definition validate_fields_non_empty ::
  "pylib \<Rightarrow> FieldComparatorConfig list \<Rightarrow> error + FieldComparatorConfig list" where
  "validate_fields_non_empty lib v =
     (if v = [] then Inl ValueError
      else
        let total_weight = py_sum lib (map fc_weight v) in
        if total_weight \<le> 0 then Inl ValueError
        else Inr v)"

text \<open>
  \<open>RuleSet._validate_rules_non_empty\<close>: the value the validator returns is the value
  stored in the field \<open>rules\<close>. Python's \<open>sorted\<close> is stable, as \<open>sort_key\<close> is.
\<close>

definition rule_key :: "Rule \<Rightarrow> int \<times> string" where
  "rule_key r = (rule_priority r, rule_name r)"

definition validate_rules_non_empty :: "Rule list \<Rightarrow> error + Rule list" where
  "validate_rules_non_empty v =
     (if v = [] then Inl ValueError else Inr (sort_key rule_key v))"

definition RuleSet_init :: "Rule list \<Rightarrow> error + RuleSet" where
  "RuleSet_init v =
     (case validate_rules_non_empty v of
        Inl e \<Rightarrow> Inl e
      | Inr rs \<Rightarrow> Inr \<lparr>rules = rs\<rparr>)"

datatype dval = DBool bool | DStr string | DInt int | DNum real | DStrs "string list"

type_synonym details = "(string \<times> dval) list"

record FieldScore =
  fs_left_field :: string
  fs_right_field :: string
  fs_comparator :: string
  fs_weight :: real
  fs_score :: real
  fs_passed :: bool
  fs_details :: details

record PairScore =
  ps_left_id :: string
  ps_right_id :: string
  ps_rule_name :: string
  ps_total_score :: real
  ps_matched :: bool
  ps_field_scores :: "FieldScore list"
  ps_weight_sum :: real

text \<open>
  \<open>matches_index\<close> is a Python dict: an association list with distinct keys in
  insertion order, where an assignment to a present key keeps its position
  (\<open>AList.update\<close>).
\<close>

record EngineResult =
  er_cardinality :: Cardinality
  er_indexed_by :: string
  er_matches_index :: "(string \<times> PairScore list) list"
  er_unmatched_left_ids :: "string list"
  er_unmatched_right_ids :: "string list"

section \<open>registry.py\<close>

record cmp_context =
  ctx_left :: pyrecord
  ctx_right :: pyrecord
  ctx_rule :: Rule

type_synonym ComparatorFunc =
  "pyval \<Rightarrow> pyval \<Rightarrow> cmp_context option \<Rightarrow> (string \<rightharpoonup> pyval) option \<Rightarrow> error + (real \<times> details)"

record ComparatorRegistry =
  name_to_comparator :: "(string \<times> ComparatorFunc) list"
  name_to_description :: "(string \<times> string) list"

definition empty_registry :: ComparatorRegistry where
  "empty_registry = \<lparr>name_to_comparator = [], name_to_description = []\<rparr>"

definition normalize_name :: "string \<Rightarrow> string" where
  "normalize_name name = lower (strip name)"

definition register ::
  "ComparatorRegistry \<Rightarrow> string \<Rightarrow> ComparatorFunc \<Rightarrow> string option \<Rightarrow> error + ComparatorRegistry" where
  "register reg name func description =
     (let normalized = normalize_name name in
      if normalized = [] then Inl ValueError
      else
        let reg1 = reg\<lparr>name_to_comparator := AList.update normalized func (name_to_comparator reg)\<rparr>
        in (case description of
              None \<Rightarrow> Inr reg1
            | Some d \<Rightarrow>
                if d = [] then Inr reg1
                else Inr (reg1\<lparr>name_to_description :=
                            AList.update normalized d (name_to_description reg1)\<rparr>)))"

definition names :: "ComparatorRegistry \<Rightarrow> string list" where
  "names reg = sort (map fst (name_to_comparator reg))"

text \<open>
  \<open>get\<close> raises \<open>KeyError\<close> with a message built from the name asked for and the
  sorted registered names; the error value carries both.
\<close>

definition get :: "ComparatorRegistry \<Rightarrow> string \<Rightarrow> error + ComparatorFunc" where
  "get reg name =
     (let normalized = normalize_name name in
      case map_of (name_to_comparator reg) normalized of
        Some f \<Rightarrow> Inr f
      | None \<Rightarrow> Inl (KeyError name (sort (map fst (name_to_comparator reg)))))"

definition evaluate ::
  "ComparatorRegistry \<Rightarrow> string \<Rightarrow> pyval \<Rightarrow> pyval \<Rightarrow> cmp_context option \<Rightarrow>
   (string \<rightharpoonup> pyval) option \<Rightarrow> error + (real \<times> details)" where
  "evaluate reg name left_value right_value ctx params =
     (case get reg name of
        Inl e \<Rightarrow> Inl e
      | Inr comparator \<Rightarrow> comparator left_value right_value ctx params)"

section \<open>engine.py\<close>

text \<open>\<open>fc.params or {}\<close>: \<open>None\<close> and the empty dict both give the empty dict.\<close>

definition params_or_empty :: "(string \<rightharpoonup> pyval) option \<Rightarrow> (string \<rightharpoonup> pyval)" where
  "params_or_empty p = (case p of None \<Rightarrow> Map.empty | Some d \<Rightarrow> d)"

definition eval_binding ::
  "ComparatorRegistry \<Rightarrow> pyrecord \<Rightarrow> pyrecord \<Rightarrow> Rule \<Rightarrow> FieldComparatorConfig \<Rightarrow>
   error + (real \<times> details)" where
  "eval_binding reg left right rule fc =
     evaluate reg (fc_comparator fc)
       (rec_get left (fc_left_field fc)) (rec_get right (fc_right_field fc))
       (Some \<lparr>ctx_left = left, ctx_right = right, ctx_rule = rule\<rparr>)
       (Some (params_or_empty (fc_params fc)))"

definition fc_passed :: "FieldComparatorConfig \<Rightarrow> real \<Rightarrow> bool" where
  "fc_passed fc score = (score \<ge> (case fc_threshold fc of Some t \<Rightarrow> t | None \<Rightarrow> 0))"

definition mk_field_score :: "FieldComparatorConfig \<Rightarrow> real \<Rightarrow> details \<Rightarrow> FieldScore" where
  "mk_field_score fc score dets =
     \<lparr>fs_left_field = fc_left_field fc, fs_right_field = fc_right_field fc,
      fs_comparator = fc_comparator fc, fs_weight = fc_weight fc,
      fs_score = score, fs_passed = fc_passed fc score, fs_details = dets\<rparr>"

text \<open>
  The loop of \<open>_score_pair\<close> over \<open>rule.fields\<close>; its state is
  \<open>(weighted_sum, all_must_pass, field_scores)\<close>. An exception of the comparator
  leaves the loop. \<open>weighted_sum += score * fc.weight\<close> is a product and a sum of
  doubles.
\<close>

fun score_fields ::
  "pylib \<Rightarrow> ComparatorRegistry \<Rightarrow> pyrecord \<Rightarrow> pyrecord \<Rightarrow> Rule \<Rightarrow> FieldComparatorConfig list \<Rightarrow>
   real \<times> bool \<times> FieldScore list \<Rightarrow> error + (real \<times> bool \<times> FieldScore list)" where
  "score_fields lib reg left right rule [] st = Inr st"
| "score_fields lib reg left right rule (fc # fcs) (weighted_sum, all_must_pass, field_scores) =
     (case eval_binding reg left right rule fc of
        Inl e \<Rightarrow> Inl e
      | Inr (score, dets) \<Rightarrow>
          let passed = fc_passed fc score;
              all_must_pass' = (if fc_must fc \<and> \<not> passed then False else all_must_pass)
          in score_fields lib reg left right rule fcs
               (float_add lib weighted_sum (float_mul lib score (fc_weight fc)), all_must_pass',
                field_scores @ [mk_field_score fc score dets]))"

definition score_pair ::
  "pylib \<Rightarrow> ComparatorRegistry \<Rightarrow> pyrecord \<Rightarrow> pyrecord \<Rightarrow> Rule \<Rightarrow> error + PairScore" where
  "score_pair lib reg left right rule =
     (let total_weight = py_sum lib (map fc_weight (rule_fields rule)) in
      case score_fields lib reg left right rule (rule_fields rule) (0, True, []) of
        Inl e \<Rightarrow> Inl e
      | Inr (weighted_sum, all_must_pass, field_scores) \<Rightarrow>
          let total_score = (if total_weight > 0 then float_div lib weighted_sum total_weight else 0);
              matched = (all_must_pass \<and> total_score \<ge> rule_match_threshold rule)
          in Inr \<lparr>ps_left_id = py_str lib (rec_get_default left ''id'' (VStr ''<no-id>'')),
                  ps_right_id = py_str lib (rec_get_default right ''id'' (VStr ''<no-id>'')),
                  ps_rule_name = rule_name rule,
                  ps_total_score = total_score,
                  ps_matched = matched,
                  ps_field_scores = field_scores,
                  ps_weight_sum = total_weight\<rparr>)"

text \<open>
  The loop of \<open>_evaluate_rules_for_pair\<close> with the variable \<open>best\<close>. \<open>Inr (Inl ps)\<close> is
  the \<open>return pair_score\<close> inside the loop, \<open>Inr (Inr best)\<close> the end of the loop.
\<close>

fun rules_loop ::
  "pylib \<Rightarrow> ComparatorRegistry \<Rightarrow> pyrecord \<Rightarrow> pyrecord \<Rightarrow> Rule list \<Rightarrow> PairScore option \<Rightarrow>
   error + (PairScore + PairScore option)" where
  "rules_loop lib reg left right [] best = Inr (Inr best)"
| "rules_loop lib reg left right (rule # rest) best =
     (case score_pair lib reg left right rule of
        Inl e \<Rightarrow> Inl e
      | Inr pair_score \<Rightarrow>
          if ps_matched pair_score then Inr (Inl pair_score)
          else rules_loop lib reg left right rest
                 (case best of
                    None \<Rightarrow> Some pair_score
                  | Some b \<Rightarrow> if ps_total_score pair_score > ps_total_score b
                              then Some pair_score else best))"

definition evaluate_rules_for_pair ::
  "pylib \<Rightarrow> ComparatorRegistry \<Rightarrow> pyrecord \<Rightarrow> pyrecord \<Rightarrow> Rule list \<Rightarrow> error + PairScore" where
  "evaluate_rules_for_pair lib reg left right rs =
     (case rules_loop lib reg left right rs None of
        Inl e \<Rightarrow> Inl e
      | Inr (Inl pair_score) \<Rightarrow> Inr pair_score
      | Inr (Inr (Some best)) \<Rightarrow> Inr best
      | Inr (Inr None) \<Rightarrow>
          (case rs of
             [] \<Rightarrow> Inl IndexError
           | rule0 # _ \<Rightarrow> score_pair lib reg left right rule0))"

text \<open>The inner loops of \<open>match\<close>: one score per record of the other side, in order.\<close>

fun collect_scores :: "('a \<Rightarrow> error + PairScore) \<Rightarrow> 'a list \<Rightarrow> error + PairScore list" where
  "collect_scores f [] = Inr []"
| "collect_scores f (x # xs) =
     (case f x of
        Inl e \<Rightarrow> Inl e
      | Inr s \<Rightarrow> (case collect_scores f xs of Inl e \<Rightarrow> Inl e | Inr ss \<Rightarrow> Inr (s # ss)))"

definition match_sort_key :: "PairScore \<Rightarrow> real \<times> string" where
  "match_sort_key s = (- ps_total_score s, ps_rule_name s)"

text \<open>The slice \<open>xs[:k]\<close>; a negative \<open>k\<close> counts from the end.\<close>

definition slice_to :: "'a list \<Rightarrow> int \<Rightarrow> 'a list" where
  "slice_to xs k = (if k \<ge> 0 then take (nat k) xs else take (length xs - nat (- k)) xs)"

definition truncate_top_k :: "int option \<Rightarrow> 'a list \<Rightarrow> 'a list" where
  "truncate_top_k top_k xs = (case top_k of None \<Rightarrow> xs | Some k \<Rightarrow> slice_to xs k)"

text \<open>
  The outer loop of \<open>match\<close>, for both index sides: \<open>pair x\<close> scores the index record
  \<open>x\<close> against one record of the other side, \<open>ident x\<close> is its identifier; the state is
  \<open>(result.matches_index, the index side's unmatched list)\<close>.
\<close>

fun index_loop ::
  "('a \<Rightarrow> 'b \<Rightarrow> error + PairScore) \<Rightarrow> ('a \<Rightarrow> string) \<Rightarrow> int option \<Rightarrow> 'b list \<Rightarrow> 'a list \<Rightarrow>
   (string \<times> PairScore list) list \<times> string list \<Rightarrow>
   error + ((string \<times> PairScore list) list \<times> string list)" where
  "index_loop pair ident top_k others [] st = Inr st"
| "index_loop pair ident top_k others (x # xs) (matches_index, unmatched) =
     (case collect_scores (pair x) others of
        Inl e \<Rightarrow> Inl e
      | Inr scores \<Rightarrow>
          let matches = filter ps_matched scores in
          if matches = [] then
            index_loop pair ident top_k others xs (matches_index, unmatched @ [ident x])
          else
            index_loop pair ident top_k others xs
              (AList.update (ident x) (truncate_top_k top_k (sort_key match_sort_key matches))
                 matches_index, unmatched))"

text \<open>\<open>str(r.get(id_field))\<close>, the identifier under which \<open>match\<close> files a record.\<close>

definition record_id :: "pylib \<Rightarrow> string \<Rightarrow> pyrecord \<Rightarrow> string" where
  "record_id lib id_field r = py_str lib (rec_get r id_field)"

text \<open>The dict comprehension \<open>{str(r.get(f)): r for r in records}\<close>.\<close>

definition id_map :: "pylib \<Rightarrow> string \<Rightarrow> pyrecord list \<Rightarrow> (string \<times> pyrecord) list" where
  "id_map lib id_field records =
     foldl (\<lambda>m r. AList.update (record_id lib id_field r) r m) [] records"

definition match ::
  "pylib \<Rightarrow> ComparatorRegistry \<Rightarrow> pyrecord list \<Rightarrow> pyrecord list \<Rightarrow> RuleSet \<Rightarrow> Cardinality \<Rightarrow>
   string \<Rightarrow> string \<Rightarrow> int option \<Rightarrow> error + EngineResult" where
  "match lib reg left_list right_list ruleset cardinality left_id_field right_id_field top_k =
     (let rs = rules ruleset;
          index_side = (if cardinality = ONE_TO_MANY then ''left'' else ''right'');
          left_map = id_map lib left_id_field left_list;
          right_map = id_map lib right_id_field right_list
      in
      if index_side = ''left'' then
        (case index_loop (\<lambda>left right. evaluate_rules_for_pair lib reg left right rs)
                (record_id lib left_id_field) top_k right_list left_list ([], []) of
           Inl e \<Rightarrow> Inl e
         | Inr (matches_index, unmatched_left) \<Rightarrow>
             let matched_right_ids = set (map ps_right_id (concat (map snd matches_index)))
             in Inr \<lparr>er_cardinality = cardinality, er_indexed_by = index_side,
                     er_matches_index = matches_index,
                     er_unmatched_left_ids = unmatched_left,
                     er_unmatched_right_ids =
                       filter (\<lambda>rid. rid \<notin> matched_right_ids) (map fst right_map)\<rparr>)
      else
        (case index_loop (\<lambda>right left. evaluate_rules_for_pair lib reg left right rs)
                (record_id lib right_id_field) top_k left_list right_list ([], []) of
           Inl e \<Rightarrow> Inl e
         | Inr (matches_index, unmatched_right) \<Rightarrow>
             let matched_left_ids = set (map ps_left_id (concat (map snd matches_index)))
             in Inr \<lparr>er_cardinality = cardinality, er_indexed_by = index_side,
                     er_matches_index = matches_index,
                     er_unmatched_left_ids =
                       filter (\<lambda>lid. lid \<notin> matched_left_ids) (map fst left_map),
                     er_unmatched_right_ids = unmatched_right\<rparr>))"

section \<open>comparators.py\<close>

text \<open>
  \<open>float(i)\<close> of an integer: the nearest double, a tie going to the even significand of
  53 bits, and \<open>OverflowError\<close> (here \<open>None\<close>) where that is beyond the largest double,
  that is from \<open>2^1024 - 2^970\<close> on.
\<close>

function bit_length :: "int \<Rightarrow> nat" where
  "bit_length n = (if n \<le> 0 then 0 else Suc (bit_length (n div 2)))"
  by auto
termination
  by (relation "measure nat") auto

declare bit_length.simps [simp del]

definition float_of_int :: "int \<Rightarrow> real option" where
  "float_of_int i =
     (let n = \<bar>i\<bar> in
      if n < 2 ^ 53 then Some (real_of_int i)
      else
        let e = bit_length n - 53;
            q = n div 2 ^ e;
            r = n mod 2 ^ e;
            half = 2 ^ (e - 1);
            m = (if r > half \<or> (r = half \<and> odd q) then q + 1 else q);
            v = m * 2 ^ e
        in if v \<ge> 2 ^ 1024 then None
           else Some (real_of_int (if i < 0 then - v else v)))"

text \<open>
  Python's \<open>bool(v)\<close>, \<open>int(v)\<close>, \<open>float(v)\<close> and \<open>a == b\<close> on scalar values. \<open>==\<close> compares
  an integer and a float by their exact values.
\<close>

fun py_bool :: "pyval \<Rightarrow> bool" where
  "py_bool VNone = False"
| "py_bool (VStr s) = (s \<noteq> [])"
| "py_bool (VInt i) = (i \<noteq> 0)"
| "py_bool (VFloat x) = (x \<noteq> 0)"
| "py_bool (VBool b) = b"

fun py_int :: "pylib \<Rightarrow> pyval \<Rightarrow> error + int" where
  "py_int lib VNone = Inl TypeError"
| "py_int lib (VStr s) = (case str_int lib s of None \<Rightarrow> Inl ValueError | Some i \<Rightarrow> Inr i)"
| "py_int lib (VInt i) = Inr i"
| "py_int lib (VFloat x) = Inr (if x \<ge> 0 then \<lfloor>x\<rfloor> else \<lceil>x\<rceil>)"
| "py_int lib (VBool b) = Inr (if b then 1 else 0)"

fun py_float :: "pylib \<Rightarrow> pyval \<Rightarrow> error + real" where
  "py_float lib VNone = Inl TypeError"
| "py_float lib (VStr s) = (case str_float lib s of None \<Rightarrow> Inl ValueError | Some x \<Rightarrow> Inr x)"
| "py_float lib (VInt i) = (case float_of_int i of None \<Rightarrow> Inl OverflowError | Some x \<Rightarrow> Inr x)"
| "py_float lib (VFloat x) = Inr x"
| "py_float lib (VBool b) = Inr (if b then 1 else 0)"

fun py_num :: "pyval \<Rightarrow> real option" where
  "py_num (VInt i) = Some (real_of_int i)"
| "py_num (VFloat x) = Some x"
| "py_num (VBool b) = Some (if b then 1 else 0)"
| "py_num VNone = None"
| "py_num (VStr s) = None"

fun py_eq :: "pyval \<Rightarrow> pyval \<Rightarrow> bool" where
  "py_eq VNone b = (b = VNone)"
| "py_eq (VStr s) b = (b = VStr s)"
| "py_eq a b = (case (py_num a, py_num b) of (Some x, Some y) \<Rightarrow> x = y | _ \<Rightarrow> False)"

definition to_string :: "pylib \<Rightarrow> pyval \<Rightarrow> string option" where
  "to_string lib v = (if v = VNone then None else Some (py_str lib v))"

definition normalize_text :: "pylib \<Rightarrow> pyval \<Rightarrow> bool \<Rightarrow> bool \<Rightarrow> string option" where
  "normalize_text lib v case_insensitive do_strip =
     (case to_string lib v of
        None \<Rightarrow> None
      | Some s \<Rightarrow>
          let s1 = (if do_strip then strip s else s);
              s2 = (if case_insensitive then lower s1 else s1)
          in Some s2)"

text \<open>\<open>_safe_float\<close>: \<open>None\<close> for \<open>None\<close> and for every exception of \<open>float\<close>.\<close>

definition safe_float :: "pylib \<Rightarrow> pyval \<Rightarrow> real option" where
  "safe_float lib v =
     (if v = VNone then None
      else case py_float lib v of Inl e \<Rightarrow> None | Inr x \<Rightarrow> Some x)"

text \<open>
  \<open>_parse_date\<close>: the ISO parser, then \<open>strptime\<close> with each format in turn, then
  \<open>dateutil\<close>. No value of type \<open>pyval\<close> is a \<open>datetime\<close> or \<open>date\<close> object, so the
  \<open>isinstance\<close> branch is not taken.
\<close>

fun try_formats :: "pylib \<Rightarrow> string \<Rightarrow> string list \<Rightarrow> int option" where
  "try_formats lib s [] = None"
| "try_formats lib s (fmt # fmts) =
     (case strptime lib s fmt of Some d \<Rightarrow> Some d | None \<Rightarrow> try_formats lib s fmts)"

definition parse_date :: "pylib \<Rightarrow> pyval \<Rightarrow> int option" where
  "parse_date lib v =
     (if v = VNone then None
      else case to_string lib v of
        None \<Rightarrow> None
      | Some s0 \<Rightarrow>
          let s = strip s0 in
          (case fromisoformat lib s of
             Some d \<Rightarrow> Some d
           | None \<Rightarrow>
               (case try_formats lib s [''%Y-%m-%d'', ''%m/%d/%Y'', ''%d/%m/%Y'', ''%Y/%m/%d''] of
                  Some d \<Rightarrow> Some d
                | None \<Rightarrow> dateutil_parse lib s)))"

text \<open>\<open>params.get(key, default)\<close> after \<open>if params is None: params = {}\<close>.\<close>

definition params_get :: "(string \<rightharpoonup> pyval) option \<Rightarrow> string \<Rightarrow> pyval \<Rightarrow> pyval" where
  "params_get params k dflt =
     (case params of
        None \<Rightarrow> dflt
      | Some d \<Rightarrow> (case d k of None \<Rightarrow> dflt | Some v \<Rightarrow> v))"

definition cmp_exact :: ComparatorFunc where
  "cmp_exact left right ctx params =
     (if py_eq left right \<and> left \<noteq> VNone then Inr (1, [(''match'', DBool True)])
      else Inr (0, [(''match'', DBool False)]))"

definition cmp_icase_exact :: "pylib \<Rightarrow> ComparatorFunc" where
  "cmp_icase_exact lib left right ctx params =
     (case (normalize_text lib left True True, normalize_text lib right True True) of
        (Some li, Some ri) \<Rightarrow>
          if li = ri then Inr (1, [(''match'', DBool True)])
          else Inr (0, [(''match'', DBool False)])
      | _ \<Rightarrow> Inr (0, [(''reason'', DStr ''missing'')]))"

subsection \<open>difflib.SequenceMatcher\<close>

text \<open>
  \<open>cmp_ratio\<close> calls \<open>SequenceMatcher(None, li, ri).ratio()\<close> of the Python standard
  library: no junk predicate (\<open>bjunk\<close> is empty, so the two loops of
  \<open>find_longest_match\<close> that extend a match over junk never run) and \<open>autojunk\<close> on.
  Indices are natural numbers; the library reads \<open>a[i]\<close> and \<open>b[j]\<close> only inside the
  ranges it was given.
\<close>

definition b2j_get :: "(char \<times> nat list) list \<Rightarrow> char \<Rightarrow> nat list" where
  "b2j_get b2j c = (case map_of b2j c of None \<Rightarrow> [] | Some js \<Rightarrow> js)"

text \<open>
  \<open>__chain_b\<close>: the dict from each element of \<open>b\<close> to the increasing list of its
  positions; when \<open>b\<close> has 200 elements or more, the elements that occur more than
  \<open>len(b) // 100 + 1\<close> times are removed from it.
\<close>

definition chain_b :: "string \<Rightarrow> (char \<times> nat list) list" where
  "chain_b b =
     (let b2j = foldl (\<lambda>m (i, elt). AList.update elt (b2j_get m elt @ [i]) m) [] (List.enumerate 0 b);
          n = length b
      in if n \<ge> 200 then
           (let ntest = n div 100 + 1 in filter (\<lambda>(elt, idxs). \<not> length idxs > ntest) b2j)
         else b2j)"

text \<open>\<open>j2len.get(j - 1, 0)\<close>; for \<open>j = 0\<close> the key \<open>-1\<close> is never in the dict.\<close>

definition j2len_get :: "(nat \<rightharpoonup> nat) \<Rightarrow> nat \<Rightarrow> nat" where
  "j2len_get j2len j = (if j = 0 then 0 else case j2len (j - 1) of None \<Rightarrow> 0 | Some k \<Rightarrow> k)"

text \<open>
  The inner loop of \<open>find_longest_match\<close> over the positions \<open>j\<close> of \<open>a[i]\<close> in \<open>b\<close>;
  its state is \<open>(newj2len, besti, bestj, bestsize)\<close>. The new \<open>besti\<close> is \<open>i - k + 1\<close>,
  where \<open>k \<le> i + 1\<close>.
\<close>

fun flm_inner ::
  "(nat \<rightharpoonup> nat) \<Rightarrow> nat \<Rightarrow> nat \<Rightarrow> nat \<Rightarrow> nat list \<Rightarrow>
   (nat \<rightharpoonup> nat) \<times> nat \<times> nat \<times> nat \<Rightarrow> (nat \<rightharpoonup> nat) \<times> nat \<times> nat \<times> nat" where
  "flm_inner j2len i blo bhi [] st = st"
| "flm_inner j2len i blo bhi (j # js) (newj2len, besti, bestj, bestsize) =
     (if j < blo then flm_inner j2len i blo bhi js (newj2len, besti, bestj, bestsize)
      else if j \<ge> bhi then (newj2len, besti, bestj, bestsize)
      else
        let k = j2len_get j2len j + 1;
            newj2len' = newj2len(j \<mapsto> k)
        in if k > bestsize
           then flm_inner j2len i blo bhi js (newj2len', i + 1 - k, j + 1 - k, k)
           else flm_inner j2len i blo bhi js (newj2len', besti, bestj, bestsize))"

fun flm_outer ::
  "string \<Rightarrow> (char \<times> nat list) list \<Rightarrow> nat \<Rightarrow> nat \<Rightarrow> nat list \<Rightarrow>
   (nat \<rightharpoonup> nat) \<times> nat \<times> nat \<times> nat \<Rightarrow> nat \<times> nat \<times> nat" where
  "flm_outer a b2j blo bhi [] (j2len, best) = best"
| "flm_outer a b2j blo bhi (i # is) (j2len, best) =
     (case flm_inner j2len i blo bhi (b2j_get b2j (a ! i)) (Map.empty, best) of
        (newj2len, best') \<Rightarrow> flm_outer a b2j blo bhi is (newj2len, best'))"

function extend_left :: "string \<Rightarrow> string \<Rightarrow> nat \<Rightarrow> nat \<Rightarrow> nat \<times> nat \<times> nat \<Rightarrow> nat \<times> nat \<times> nat" where
  "extend_left a b alo blo (besti, bestj, bestsize) =
     (if besti > alo \<and> bestj > blo \<and> a ! (besti - 1) = b ! (bestj - 1)
      then extend_left a b alo blo (besti - 1, bestj - 1, bestsize + 1)
      else (besti, bestj, bestsize))"
  by pat_completeness auto
termination
  by (relation "measure (\<lambda>(a, b, alo, blo, besti, bestj, bestsize). besti)") auto

function extend_right :: "string \<Rightarrow> string \<Rightarrow> nat \<Rightarrow> nat \<Rightarrow> nat \<times> nat \<times> nat \<Rightarrow> nat \<times> nat \<times> nat" where
  "extend_right a b ahi bhi (besti, bestj, bestsize) =
     (if besti + bestsize < ahi \<and> bestj + bestsize < bhi \<and>
         a ! (besti + bestsize) = b ! (bestj + bestsize)
      then extend_right a b ahi bhi (besti, bestj, bestsize + 1)
      else (besti, bestj, bestsize))"
  by pat_completeness auto
termination
  by (relation "measure (\<lambda>(a, b, ahi, bhi, besti, bestj, bestsize). ahi - (besti + bestsize))") auto

definition find_longest_match ::
  "string \<Rightarrow> string \<Rightarrow> (char \<times> nat list) list \<Rightarrow> nat \<Rightarrow> nat \<Rightarrow> nat \<Rightarrow> nat \<Rightarrow> nat \<times> nat \<times> nat" where
  "find_longest_match a b b2j alo ahi blo bhi =
     extend_right a b ahi bhi
       (extend_left a b alo blo
          (flm_outer a b2j blo bhi [alo..<ahi] (Map.empty, alo, blo, 0)))"

text \<open>The block found lies inside the range of \<open>a\<close> it was searched in.\<close>

definition j2len_le :: "nat \<Rightarrow> (nat \<rightharpoonup> nat) \<Rightarrow> bool" where
  "j2len_le m j2len = (\<forall>j v. j2len j = Some v \<longrightarrow> v \<le> m)"

definition best_in_a :: "nat \<Rightarrow> nat \<Rightarrow> nat \<times> nat \<times> nat \<Rightarrow> bool" where
  "best_in_a alo n best = (case best of (besti, bestj, bestsize) \<Rightarrow> alo \<le> besti \<and> besti + bestsize \<le> n)"

lemma j2len_get_le: "j2len_le m j2len \<Longrightarrow> j2len_get j2len j \<le> m"
  by (auto simp: j2len_le_def j2len_get_def split: option.splits)

lemma flm_inner_in_a:
  assumes "j2len_le (i - alo) j2len" and "alo \<le> i"
  shows "j2len_le (i + 1 - alo) newj2len \<Longrightarrow> best_in_a alo (i + 1) best \<Longrightarrow>
         flm_inner j2len i blo bhi js (newj2len, best) = (newj2len', best') \<Longrightarrow>
         j2len_le (i + 1 - alo) newj2len' \<and> best_in_a alo (i + 1) best'"
proof (induction js arbitrary: newj2len best)
  case Nil
  then show ?case by simp
next
  case (Cons j js)
  obtain besti bestj bestsize where best: "best = (besti, bestj, bestsize)"
    by (cases best)
  define k where "k = j2len_get j2len j + 1"
  from j2len_get_le[OF assms(1), of j] assms(2) have kb: "k \<le> i + 1 - alo" "k \<le> i + 1"
    unfolding k_def by linarith+
  have nj: "j2len_le (i + 1 - alo) (newj2len(j \<mapsto> k))"
    using Cons.prems(1) kb unfolding j2len_le_def by auto
  have bo: "best_in_a alo (i + 1) (i + 1 - k, j + 1 - k, k)"
    using kb assms(2) unfolding best_in_a_def by simp
  consider (lo) "j < blo" | (hi) "\<not> j < blo" "j \<ge> bhi"
    | (new) "\<not> j < blo" "\<not> j \<ge> bhi" "k > bestsize"
    | (old) "\<not> j < blo" "\<not> j \<ge> bhi" "\<not> k > bestsize"
    by blast
  then show ?case
  proof cases
    case lo
    with Cons.prems(3) have "flm_inner j2len i blo bhi js (newj2len, best) = (newj2len', best')"
      unfolding best by simp
    from Cons.IH[OF Cons.prems(1,2) this] show ?thesis .
  next
    case hi
    with Cons.prems show ?thesis unfolding best by simp
  next
    case new
    with Cons.prems(3)
    have "flm_inner j2len i blo bhi js (newj2len(j \<mapsto> k), i + 1 - k, j + 1 - k, k) = (newj2len', best')"
      unfolding best k_def by (simp add: Let_def)
    from Cons.IH[OF nj bo this] show ?thesis .
  next
    case old
    with Cons.prems(3)
    have "flm_inner j2len i blo bhi js (newj2len(j \<mapsto> k), best) = (newj2len', best')"
      unfolding best k_def by (simp add: Let_def)
    from Cons.IH[OF nj Cons.prems(2) this] show ?thesis .
  qed
qed

lemma flm_outer_in_a:
  "alo \<le> i \<Longrightarrow> j2len_le (i - alo) j2len \<Longrightarrow> best_in_a alo i best \<Longrightarrow>
   best_in_a alo (max i ahi) (flm_outer a b2j blo bhi [i..<ahi] (j2len, best))"
proof (induction "ahi - i" arbitrary: i j2len best)
  case 0
  then show ?case by simp
next
  case (Suc n)
  then have lt: "i < ahi" by simp
  then have upt: "[i..<ahi] = i # [Suc i..<ahi]" by (simp add: upt_rec)
  obtain newj2len best' where
    inner: "flm_inner j2len i blo bhi (b2j_get b2j (a ! i)) (Map.empty, best) = (newj2len, best')"
    by (cases "flm_inner j2len i blo bhi (b2j_get b2j (a ! i)) (Map.empty, best)")
  have e: "j2len_le (i + 1 - alo) Map.empty" by (simp add: j2len_le_def)
  have b1: "best_in_a alo (i + 1) best"
    using Suc.prems(3) by (auto simp: best_in_a_def)
  from flm_inner_in_a[OF Suc.prems(2,1) e b1 inner]
  have n: "j2len_le (Suc i - alo) newj2len" and b: "best_in_a alo (Suc i) best'"
    by simp_all
  have m: "n = ahi - Suc i" using Suc.hyps(2) by simp
  have le: "alo \<le> Suc i" using Suc.prems(1) by simp
  have "flm_outer a b2j blo bhi [i..<ahi] (j2len, best)
          = flm_outer a b2j blo bhi [Suc i..<ahi] (newj2len, best')"
    unfolding upt using inner by simp
  moreover have "max (Suc i) ahi = max i ahi" using lt by simp
  ultimately show ?case using Suc.hyps(1)[OF m le n b] by simp
qed

lemma extend_left_in_a:
  "extend_left a b alo blo best = best' \<Longrightarrow> best_in_a alo n best \<Longrightarrow> best_in_a alo n best'"
proof (induction a b alo blo best rule: extend_left.induct)
  case (1 a b alo blo besti bestj bestsize)
  show ?case
  proof (cases "besti > alo \<and> bestj > blo \<and> a ! (besti - 1) = b ! (bestj - 1)")
    case True
    with "1.prems"(1) have "extend_left a b alo blo (besti - 1, bestj - 1, bestsize + 1) = best'"
      by simp
    moreover have "best_in_a alo n (besti - 1, bestj - 1, bestsize + 1)"
      using True "1.prems"(2) by (auto simp: best_in_a_def)
    ultimately show ?thesis using "1.IH"[OF True] by blast
  next
    case False
    with "1.prems" show ?thesis by (auto split: if_splits)
  qed
qed

lemma extend_right_in_a:
  "extend_right a b ahi bhi best = best' \<Longrightarrow> best_in_a alo (max alo ahi) best \<Longrightarrow>
   best_in_a alo (max alo ahi) best'"
proof (induction a b ahi bhi best rule: extend_right.induct)
  case (1 a b ahi bhi besti bestj bestsize)
  show ?case
  proof (cases "besti + bestsize < ahi \<and> bestj + bestsize < bhi \<and>
                a ! (besti + bestsize) = b ! (bestj + bestsize)")
    case True
    with "1.prems"(1) have "extend_right a b ahi bhi (besti, bestj, bestsize + 1) = best'"
      by simp
    moreover have "best_in_a alo (max alo ahi) (besti, bestj, bestsize + 1)"
      using True "1.prems"(2) by (simp add: best_in_a_def)
    ultimately show ?thesis using "1.IH"[OF True] by blast
  next
    case False
    with "1.prems" show ?thesis by (auto split: if_splits)
  qed
qed

lemma find_longest_match_in_a:
  assumes "find_longest_match a b b2j alo ahi blo bhi = (i, j, k)"
  shows "alo \<le> i \<and> i + k \<le> max alo ahi"
proof -
  have "best_in_a alo (max alo ahi) (flm_outer a b2j blo bhi [alo..<ahi] (Map.empty, alo, blo, 0))"
    by (rule flm_outer_in_a) (simp_all add: j2len_le_def best_in_a_def)
  then have "best_in_a alo (max alo ahi)
               (extend_left a b alo blo (flm_outer a b2j blo bhi [alo..<ahi] (Map.empty, alo, blo, 0)))"
    by (rule extend_left_in_a[OF refl])
  then have "best_in_a alo (max alo ahi) (find_longest_match a b b2j alo ahi blo bhi)"
    unfolding find_longest_match_def by (rule extend_right_in_a[OF refl])
  with assms show ?thesis by (simp add: best_in_a_def)
qed

text \<open>
  The loop of \<open>get_matching_blocks\<close>: \<open>queue.pop()\<close> takes the last entry,
  \<open>queue.append\<close> adds at the end.
\<close>

definition region_size :: "nat \<times> nat \<times> nat \<times> nat \<Rightarrow> nat" where
  "region_size r = (case r of (alo, ahi, blo, bhi) \<Rightarrow> 2 * (ahi - alo) + 1)"

function gmb_loop ::
  "string \<Rightarrow> string \<Rightarrow> (char \<times> nat list) list \<Rightarrow> (nat \<times> nat \<times> nat \<times> nat) list \<Rightarrow>
   (nat \<times> nat \<times> nat) list \<Rightarrow> (nat \<times> nat \<times> nat) list" where
  "gmb_loop a b b2j queue matching_blocks =
     (if queue = [] then matching_blocks
      else
        (case last queue of (alo, ahi, blo, bhi) \<Rightarrow>
          (case find_longest_match a b b2j alo ahi blo bhi of (i, j, k) \<Rightarrow>
             if k \<noteq> 0 then
               gmb_loop a b b2j
                 (butlast queue
                    @ (if alo < i \<and> blo < j then [(alo, i, blo, j)] else [])
                    @ (if i + k < ahi \<and> j + k < bhi then [(i + k, ahi, j + k, bhi)] else []))
                 (matching_blocks @ [(i, j, k)])
             else gmb_loop a b b2j (butlast queue) matching_blocks)))"
  by pat_completeness auto
termination
proof (relation "measure (\<lambda>(a, b, b2j, queue, blocks). sum_list (map region_size queue))", goal_cases)
  case 1
  then show ?case by simp
next
  case (2 a b b2j queue matching_blocks alo r1 ahi r2 blo bhi i r3 j k)
  then have q: "queue \<noteq> []" and l: "last queue = (alo, ahi, blo, bhi)"
    and f: "find_longest_match a b b2j alo ahi blo bhi = (i, j, k)" and k: "k \<noteq> 0"
    by simp_all
  from append_butlast_last_id[OF q] l
  have "queue = butlast queue @ [(alo, ahi, blo, bhi)]" by simp
  then have "sum_list (map region_size queue)
               = sum_list (map region_size (butlast queue @ [(alo, ahi, blo, bhi)]))"
    by simp
  then have split: "sum_list (map region_size queue)
               = sum_list (map region_size (butlast queue)) + (2 * (ahi - alo) + 1)"
    by (simp add: region_size_def)
  from find_longest_match_in_a[OF f] have "alo \<le> i" "i + k \<le> max alo ahi" by simp_all
  with k split show ?case by (auto simp: region_size_def max_def split: if_splits)
next
  case (3 a b b2j queue matching_blocks alo r1 ahi r2 blo bhi i r3 j k)
  then have q: "queue \<noteq> []" and l: "last queue = (alo, ahi, blo, bhi)"
    by simp_all
  from append_butlast_last_id[OF q] l
  have "queue = butlast queue @ [(alo, ahi, blo, bhi)]" by simp
  then have "sum_list (map region_size queue)
               = sum_list (map region_size (butlast queue @ [(alo, ahi, blo, bhi)]))"
    by simp
  then have "sum_list (map region_size queue)
               = sum_list (map region_size (butlast queue)) + (2 * (ahi - alo) + 1)"
    by (simp add: region_size_def)
  then show ?case by simp
qed

declare gmb_loop.simps [simp del]

text \<open>The loop of \<open>get_matching_blocks\<close> that merges adjacent blocks; its state is
  \<open>((i1, j1, k1), non_adjacent)\<close>.\<close>

fun collapse_loop ::
  "(nat \<times> nat \<times> nat) list \<Rightarrow> (nat \<times> nat \<times> nat) \<times> (nat \<times> nat \<times> nat) list \<Rightarrow>
   (nat \<times> nat \<times> nat) \<times> (nat \<times> nat \<times> nat) list" where
  "collapse_loop [] st = st"
| "collapse_loop ((i2, j2, k2) # rest) ((i1, j1, k1), non_adjacent) =
     (if i1 + k1 = i2 \<and> j1 + k1 = j2
      then collapse_loop rest ((i1, j1, k1 + k2), non_adjacent)
      else collapse_loop rest
             ((i2, j2, k2), if k1 \<noteq> 0 then non_adjacent @ [(i1, j1, k1)] else non_adjacent))"

definition get_matching_blocks :: "string \<Rightarrow> string \<Rightarrow> (nat \<times> nat \<times> nat) list" where
  "get_matching_blocks a b =
     (let la = length a; lb = length b;
          matching_blocks = sort (gmb_loop a b (chain_b b) [(0, la, 0, lb)] [])
      in case collapse_loop matching_blocks ((0, 0, 0), []) of
           ((i1, j1, k1), non_adjacent) \<Rightarrow>
             (if k1 \<noteq> 0 then non_adjacent @ [(i1, j1, k1)] else non_adjacent) @ [(la, lb, 0)])"

definition calculate_ratio :: "nat \<Rightarrow> nat \<Rightarrow> real" where
  "calculate_ratio matches len = (if len \<noteq> 0 then 2 * real matches / real len else 1)"

definition block_size :: "nat \<times> nat \<times> nat \<Rightarrow> nat" where
  "block_size triple = snd (snd triple)"

definition ratio :: "string \<Rightarrow> string \<Rightarrow> real" where
  "ratio a b =
     calculate_ratio (sum_list (map block_size (get_matching_blocks a b))) (length a + length b)"

subsection \<open>The comparators\<close>

text \<open>
  A comparator computes its score with at most one difference and one quotient of the
  values it compares. The model gives that score before its rounding to a double:
  rounding to the nearest double is monotone and leaves 0 and 1 as they are, so a bound
  by 0 or 1 and an equality with 0 or 1 proved of the score below hold of the rounded
  score as well.
\<close>

definition cmp_ratio :: "pylib \<Rightarrow> ComparatorFunc" where
  "cmp_ratio lib left right ctx params =
     (let case_insensitive = py_bool (params_get params ''case_insensitive'' (VBool True)) in
      case (normalize_text lib left case_insensitive True,
            normalize_text lib right case_insensitive True) of
        (Some li, Some ri) \<Rightarrow> (let r = ratio li ri in Inr (r, [(''ratio'', DNum r)]))
      | _ \<Rightarrow> Inr (0, [(''reason'', DStr ''missing'')]))"

text \<open>
  \<open>re.split(r"[^0-9a-zA-Z]+", s)\<close>: the pieces of \<open>s\<close> between maximal runs of
  characters that are not ASCII letters or digits; the flag says that the character
  before was such a separator.
\<close>

definition is_alnum :: "char \<Rightarrow> bool" where
  "is_alnum c =
     (let n = (of_char c :: nat)
      in (48 \<le> n \<and> n \<le> 57) \<or> (65 \<le> n \<and> n \<le> 90) \<or> (97 \<le> n \<and> n \<le> 122))"

fun re_split :: "bool \<Rightarrow> string \<Rightarrow> string list" where
  "re_split in_sep [] = [[]]"
| "re_split in_sep (c # cs) =
     (if is_alnum c then
        (case re_split False cs of [] \<Rightarrow> [[c]] | t # ts \<Rightarrow> (c # t) # ts)
      else if in_sep then re_split True cs
      else [] # re_split True cs)"

definition tokens :: "string \<Rightarrow> int \<Rightarrow> string set" where
  "tokens s min_token_len = set (filter (\<lambda>t. int (length t) \<ge> min_token_len) (re_split False s))"

definition cmp_jaccard :: "pylib \<Rightarrow> ComparatorFunc" where
  "cmp_jaccard lib left right ctx params =
     (let case_insensitive = py_bool (params_get params ''case_insensitive'' (VBool True)) in
      case py_int lib (params_get params ''min_token_len'' (VInt 2)) of
        Inl e \<Rightarrow> Inl e
      | Inr min_token_len \<Rightarrow>
          (case (normalize_text lib left case_insensitive True,
                 normalize_text lib right case_insensitive True) of
             (Some li, Some ri) \<Rightarrow>
               let lt = tokens li min_token_len;
                   rt = tokens ri min_token_len
               in if lt = {} \<and> rt = {} then Inr (0, [(''reason'', DStr ''no_tokens'')])
                  else
                    let intersection = lt \<inter> rt;
                        union = lt \<union> rt;
                        score = real (card intersection) / real (card union)
                    in Inr (score, [(''intersection'', DStrs (sorted_list_of_set intersection)),
                                    (''union_size'', DInt (int (card union)))])
           | _ \<Rightarrow> Inr (0, [(''reason'', DStr ''missing'')])))"

text \<open>Python's \<open>sub in s\<close> on strings.\<close>

fun contains_str :: "string \<Rightarrow> string \<Rightarrow> bool" where
  "contains_str sub [] = (sub = [])"
| "contains_str sub (c # cs) = (take (length sub) (c # cs) = sub \<or> contains_str sub cs)"

definition cmp_contains :: "pylib \<Rightarrow> ComparatorFunc" where
  "cmp_contains lib left right ctx params =
     (let case_insensitive = py_bool (params_get params ''case_insensitive'' (VBool True));
          direction = py_str lib (params_get params ''direction'' (VStr ''left_in_right''))
      in case (normalize_text lib left case_insensitive True,
               normalize_text lib right case_insensitive True) of
           (Some li, Some ri) \<Rightarrow>
             if direction = ''left_in_right'' then
               (let found = contains_str li ri
                in Inr ((if found then 1 else 0),
                        [(''found'', DBool found), (''direction'', DStr direction)]))
             else if direction = ''right_in_left'' then
               (let found = contains_str ri li
                in Inr ((if found then 1 else 0),
                        [(''found'', DBool found), (''direction'', DStr direction)]))
             else Inr (0, [(''reason'', DStr ''bad_direction''), (''direction'', DStr direction)])
         | _ \<Rightarrow> Inr (0, [(''reason'', DStr ''missing'')]))"

text \<open>Float division and the division of two ints raise \<open>ZeroDivisionError\<close> on a zero divisor.\<close>

definition cmp_numeric_distance :: "pylib \<Rightarrow> ComparatorFunc" where
  "cmp_numeric_distance lib left right ctx params =
     (case py_float lib (params_get params ''max_distance'' (VFloat 1)) of
        Inl e \<Rightarrow> Inl e
      | Inr max_distance \<Rightarrow>
          (case (safe_float lib left, safe_float lib right) of
             (Some lf, Some rf) \<Rightarrow>
               let diff = \<bar>lf - rf\<bar>
               in if max_distance = 0 then Inl ZeroDivisionError
                  else
                    let score = max 0 (1 - diff / max_distance)
                    in Inr (score, [(''difference'', DNum diff), (''max_distance'', DNum max_distance)])
           | _ \<Rightarrow> Inr (0, [(''reason'', DStr ''not_numeric'')])))"

definition cmp_date_distance_days :: "pylib \<Rightarrow> ComparatorFunc" where
  "cmp_date_distance_days lib left right ctx params =
     (case py_int lib (params_get params ''max_days'' (VInt 1)) of
        Inl e \<Rightarrow> Inl e
      | Inr max_days \<Rightarrow>
          (case (parse_date lib left, parse_date lib right) of
             (Some ld, Some rd) \<Rightarrow>
               let days = \<bar>ld - rd\<bar>
               in if max_days = 0 then Inl ZeroDivisionError
                  else
                    let score = max 0 (1 - real_of_int days / real_of_int max_days)
                    in Inr (score, [(''days'', DInt days), (''max_days'', DInt max_days)])
           | _ \<Rightarrow> Inr (0, [(''reason'', DStr ''not_date'')])))"

text \<open>\<open>register_default_comparators\<close>: seven calls of \<open>register\<close>, each on the registry
  the call before left.\<close>

definition register_next ::
  "error + ComparatorRegistry \<Rightarrow> string \<Rightarrow> ComparatorFunc \<Rightarrow> string option \<Rightarrow> error + ComparatorRegistry" where
  "register_next r name func description =
     (case r of Inl e \<Rightarrow> Inl e | Inr reg \<Rightarrow> register reg name func description)"

definition register_default_comparators :: "pylib \<Rightarrow> ComparatorRegistry \<Rightarrow> error + ComparatorRegistry" where
  "register_default_comparators lib registry =
     register_next (register_next (register_next (register_next (register_next (register_next
       (register registry ''exact'' cmp_exact (Some ''Exact equality comparison (case sensitive)''))
       ''icase_exact'' (cmp_icase_exact lib) (Some ''Exact equality ignoring case and surrounding spaces''))
       ''ratio'' (cmp_ratio lib) (Some ''SequenceMatcher similarity ratio (0..1)''))
       ''jaccard'' (cmp_jaccard lib) (Some ''Jaccard similarity of token sets''))
       ''contains'' (cmp_contains lib) (Some ''Substring containment with direction and case options''))
       ''numeric_distance'' (cmp_numeric_distance lib) (Some ''Numeric distance scaled to 0..1 by max_distance''))
       ''date_distance_days'' (cmp_date_distance_days lib) (Some ''Date distance in days scaled by max_days'')"

definition default_registry :: "pylib \<Rightarrow> error + ComparatorRegistry" where
  "default_registry lib = register_default_comparators lib empty_registry"

section \<open>Notions used in the statements\<close>

definition binding_score ::
  "ComparatorRegistry \<Rightarrow> pyrecord \<Rightarrow> pyrecord \<Rightarrow> Rule \<Rightarrow> FieldComparatorConfig \<Rightarrow> real" where
  "binding_score reg left right rule fc =
     (case eval_binding reg left right rule fc of Inl e \<Rightarrow> 0 | Inr (score, dets) \<Rightarrow> score)"

definition binding_details ::
  "ComparatorRegistry \<Rightarrow> pyrecord \<Rightarrow> pyrecord \<Rightarrow> Rule \<Rightarrow> FieldComparatorConfig \<Rightarrow> details" where
  "binding_details reg left right rule fc =
     (case eval_binding reg left right rule fc of Inl e \<Rightarrow> [] | Inr (score, dets) \<Rightarrow> dets)"

definition effective_threshold :: "FieldComparatorConfig \<Rightarrow> real" where
  "effective_threshold fc = (case fc_threshold fc of Some t \<Rightarrow> t | None \<Rightarrow> 0)"

text \<open>
  The weighted mean of the binding scores in the arithmetic of doubles: the sum of score
  times weight over the bindings, taken from 0 in the order of the bindings, divided by
  the sum of the weights, and 0 if the weights sum to 0.
\<close>

definition weighted_sum_of ::
  "pylib \<Rightarrow> ComparatorRegistry \<Rightarrow> pyrecord \<Rightarrow> pyrecord \<Rightarrow> Rule \<Rightarrow> FieldComparatorConfig list \<Rightarrow> real" where
  "weighted_sum_of lib reg left right rule fcs =
     foldl (\<lambda>acc fc. float_add lib acc (float_mul lib (binding_score reg left right rule fc) (fc_weight fc)))
       0 fcs"

definition weight_sum_of :: "pylib \<Rightarrow> FieldComparatorConfig list \<Rightarrow> real" where
  "weight_sum_of lib fcs = (case fcs of [] \<Rightarrow> 0 | fc # rest \<Rightarrow> float_sum lib (map fc_weight fcs))"

definition weighted_mean :: "pylib \<Rightarrow> ComparatorRegistry \<Rightarrow> pyrecord \<Rightarrow> pyrecord \<Rightarrow> Rule \<Rightarrow> real" where
  "weighted_mean lib reg left right rule =
     (let total_weight = weight_sum_of lib (rule_fields rule);
          weighted_sum = weighted_sum_of lib reg left right rule (rule_fields rule)
      in if total_weight = 0 then 0 else float_div lib weighted_sum total_weight)"


definition has_match :: "('a \<Rightarrow> 'b \<Rightarrow> error + PairScore) \<Rightarrow> 'b list \<Rightarrow> 'a \<Rightarrow> bool" where
  "has_match pair others x =
     (case collect_scores (pair x) others of Inl e \<Rightarrow> False | Inr scores \<Rightarrow> filter ps_matched scores \<noteq> [])"


definition pair_left :: "pylib \<Rightarrow> ComparatorRegistry \<Rightarrow> Rule list \<Rightarrow> pyrecord \<Rightarrow> pyrecord \<Rightarrow> error + PairScore" where
  "pair_left lib reg rs left right = evaluate_rules_for_pair lib reg left right rs"

definition pair_right :: "pylib \<Rightarrow> ComparatorRegistry \<Rightarrow> Rule list \<Rightarrow> pyrecord \<Rightarrow> pyrecord \<Rightarrow> error + PairScore" where
  "pair_right lib reg rs right left = evaluate_rules_for_pair lib reg left right rs"

text \<open>
  \<open>e\<close> is the error of the first pair that raises, in the order in which the loops of
  \<open>match\<close> visit the pairs: the records of \<open>outer\<close> in turn, each with the records of
  \<open>inner\<close> in turn.
\<close>

definition first_error ::
  "('a \<Rightarrow> 'b \<Rightarrow> error + PairScore) \<Rightarrow> 'a list \<Rightarrow> 'b list \<Rightarrow> error \<Rightarrow> bool" where
  "first_error pair outer inner e =
     (\<exists>xs x xs' ys y ys'.
        outer = xs @ x # xs' \<and> inner = ys @ y # ys' \<and>
        (\<forall>x0\<in>set xs. \<forall>y0\<in>set inner. \<not> isl (pair x0 y0)) \<and>
        (\<forall>y0\<in>set ys. \<not> isl (pair x y0)) \<and>
        pair x y = Inl e)"

definition score_order :: "PairScore \<Rightarrow> PairScore \<Rightarrow> bool" where
  "score_order s t =
     (ps_total_score s > ps_total_score t \<or>
      (ps_total_score s = ps_total_score t \<and> ps_rule_name s \<le> ps_rule_name t))"

definition index_scores ::
  "pylib \<Rightarrow> ComparatorRegistry \<Rightarrow> Rule list \<Rightarrow> Cardinality \<Rightarrow> pyrecord \<Rightarrow> pyrecord list \<Rightarrow>
   error + PairScore list" where
  "index_scores lib reg rs cardinality x others =
     collect_scores (if cardinality = ONE_TO_MANY then pair_left lib reg rs x else pair_right lib reg rs x) others"

definition rule_matches :: "pylib \<Rightarrow> ComparatorRegistry \<Rightarrow> pyrecord \<Rightarrow> pyrecord \<Rightarrow> Rule \<Rightarrow> bool" where
  "rule_matches lib reg left right rule =
     (case score_pair lib reg left right rule of Inl e \<Rightarrow> False | Inr s \<Rightarrow> ps_matched s)"

definition normalized :: "pylib \<Rightarrow> (string \<rightharpoonup> pyval) option \<Rightarrow> pyval \<Rightarrow> string option" where
  "normalized lib params v =
     normalize_text lib v (py_bool (params_get params ''case_insensitive'' (VBool True))) True"

definition no_tokens :: "pylib \<Rightarrow> (string \<rightharpoonup> pyval) option \<Rightarrow> pyval \<Rightarrow> bool" where
  "no_tokens lib params v =
     (case (py_int lib (params_get params ''min_token_len'' (VInt 2)), normalized lib params v) of
        (Inr m, Some s) \<Rightarrow> tokens s m = {}
      | _ \<Rightarrow> True)"

definition params_ok :: "pylib \<Rightarrow> string \<Rightarrow> (string \<rightharpoonup> pyval) option \<Rightarrow> bool" where
  "params_ok lib name params =
     (if name = ''jaccard'' then
        \<not> isl (py_int lib (params_get params ''min_token_len'' (VInt 2)))
      else if name = ''numeric_distance'' then
        (case py_float lib (params_get params ''max_distance'' (VFloat 1)) of
           Inl e \<Rightarrow> False | Inr d \<Rightarrow> 0 < d)
      else if name = ''date_distance_days'' then
        (case py_int lib (params_get params ''max_days'' (VInt 1)) of
           Inl e \<Rightarrow> False | Inr m \<Rightarrow> 0 < m)
      else True)"

definition input_invalid ::
  "pylib \<Rightarrow> string \<Rightarrow> pyval \<Rightarrow> pyval \<Rightarrow> (string \<rightharpoonup> pyval) option \<Rightarrow> bool" where
  "input_invalid lib name left right params =
     (left = VNone \<or> right = VNone \<or>
      (name = ''numeric_distance'' \<and> (safe_float lib left = None \<or> safe_float lib right = None)) \<or>
      (name = ''date_distance_days'' \<and> (parse_date lib left = None \<or> parse_date lib right = None)) \<or>
      (name = ''jaccard'' \<and> no_tokens lib params left \<and> no_tokens lib params right) \<or>
      (name = ''contains'' \<and>
         py_str lib (params_get params ''direction'' (VStr ''left_in_right''))
           \<notin> {''left_in_right'', ''right_in_left''}))"

section \<open>Example inputs\<close>

text \<open>
  The library of the examples. Their records hold strings that are neither numbers nor
  dates and none of their values is a float, so its parsers read nothing and \<open>str\<close> of
  a float is not called. Their weights, thresholds and scores are small multiples of
  \<open>1/4\<close>, on which the arithmetic of doubles is exact.
\<close>

definition lib0 :: pylib where
  "lib0 = \<lparr>float_str = (\<lambda>x. []), str_float = (\<lambda>s. None), str_int = (\<lambda>s. None),
            fromisoformat = (\<lambda>s. None), strptime = (\<lambda>s fmt. None), dateutil_parse = (\<lambda>s. None),
            float_add = (\<lambda>x y. x + y), float_mul = (\<lambda>x y. x * y), float_div = (\<lambda>x y. x / y),
            float_sum = sum_list\<rparr>"

definition ex_registry :: ComparatorRegistry where
  "ex_registry =
     \<lparr>name_to_comparator = [(''exact'', cmp_exact), (''icase_exact'', cmp_icase_exact lib0)],
      name_to_description = []\<rparr>"

definition ex_binding :: "string \<Rightarrow> string \<Rightarrow> real \<Rightarrow> bool \<Rightarrow> real option \<Rightarrow> FieldComparatorConfig" where
  "ex_binding field comparator weight must threshold =
     \<lparr>fc_left_field = field, fc_right_field = field, fc_comparator = comparator,
      fc_weight = weight, fc_params = None, fc_must = must, fc_threshold = threshold\<rparr>"

definition ex_rule :: "string \<Rightarrow> int \<Rightarrow> real \<Rightarrow> bool \<Rightarrow> FieldComparatorConfig list \<Rightarrow> Rule" where
  "ex_rule name priority threshold stop fcs =
     \<lparr>rule_name = name, rule_description = None, rule_priority = priority,
      rule_cardinality = ONE_TO_MANY, rule_match_threshold = threshold,
      rule_stop_on_first_rule_match = stop, rule_fields = fcs\<rparr>"

definition ex_left :: pyrecord where
  "ex_left = map_of [(''id'', VStr ''L1''), (''email'', VStr ''a@x.com''), (''name'', VStr ''Ann'')]"

definition ex_right :: pyrecord where
  "ex_right = map_of [(''id'', VStr ''R10''), (''email'', VStr ''a@x.com''), (''name'', VStr ''Bob'')]"

definition ex_fc_email :: FieldComparatorConfig where
  "ex_fc_email = ex_binding ''email'' ''exact'' 3 False None"

definition ex_fc_name_must :: FieldComparatorConfig where
  "ex_fc_name_must = ex_binding ''name'' ''icase_exact'' 1 True (Some (1/2))"

definition ex_rule_must :: Rule where
  "ex_rule_must = ex_rule ''email_and_name'' 10 (1/2) True [ex_fc_email, ex_fc_name_must]"

definition ex_rule_name :: Rule where
  "ex_rule_name = ex_rule ''name'' 1 (3/4) True [ex_binding ''name'' ''icase_exact'' 1 False None]"

definition ex_rule_email_nostop :: Rule where
  "ex_rule_email_nostop = ex_rule ''email'' 2 (3/4) False [ex_binding ''email'' ''exact'' 1 False None]"

definition ex_rule_unknown :: Rule where
  "ex_rule_unknown = ex_rule ''sound'' 3 (3/4) True [ex_binding ''name'' ''soundex'' 1 False None]"


definition ex_rule_half_b :: Rule where
  "ex_rule_half_b = ex_rule ''half_b'' 2 (3/4) True
     [ex_binding ''name'' ''exact'' 2 False None, ex_binding ''email'' ''exact'' 2 False None]"

definition ex_rule_email :: Rule where
  "ex_rule_email = ex_rule ''email'' 100 (3/4) True [ex_binding ''email'' ''icase_exact'' 1 False None]"

definition ex_rule_both :: Rule where
  "ex_rule_both = ex_rule ''both'' 1 (1/2) True
     [ex_binding ''email'' ''exact'' 1 False None, ex_binding ''name'' ''exact'' 1 False None]"

definition ex_ruleset :: RuleSet where
  "ex_ruleset = \<lparr>rules = [ex_rule_email]\<rparr>"

definition ex_left_dup :: pyrecord where
  "ex_left_dup = map_of [(''id'', VStr ''L1''), (''email'', VStr ''z@x.com''), (''name'', VStr ''Zed'')]"

definition ex_left2 :: pyrecord where
  "ex_left2 = map_of [(''id'', VStr ''L2''), (''email'', VStr ''q@x.com''), (''name'', VStr ''Quinn'')]"

definition ex_right2 :: pyrecord where
  "ex_right2 = map_of [(''id'', VStr ''R11''), (''email'', VStr ''b@y.com''), (''name'', VStr ''Ann'')]"

definition ex_right3 :: pyrecord where
  "ex_right3 = map_of [(''id'', VStr ''R13''), (''email'', VStr ''a@x.com''), (''name'', VStr ''Ann'')]"

definition ex_left_cid :: pyrecord where
  "ex_left_cid = map_of [(''cid'', VStr ''L1''), (''email'', VStr ''a@x.com'')]"

definition ex_right_cid :: pyrecord where
  "ex_right_cid = map_of [(''cid'', VStr ''R10''), (''email'', VStr ''a@x.com'')]"

definition ex_run_dup :: "error + EngineResult" where
  "ex_run_dup = match lib0 ex_registry [ex_left, ex_left_dup] [ex_right, ex_right2] ex_ruleset
                  ONE_TO_MANY ''id'' ''id'' None"

definition ex_run_distinct :: "error + EngineResult" where
  "ex_run_distinct = match lib0 ex_registry [ex_left, ex_left2] [ex_right, ex_right2] ex_ruleset
                  ONE_TO_MANY ''id'' ''id'' None"

definition ex_run_unmatched :: "error + EngineResult" where
  "ex_run_unmatched = match lib0 ex_registry [ex_left_dup, ex_left_dup] [ex_right, ex_right] ex_ruleset
                  ONE_TO_MANY ''id'' ''id'' None"

definition ex_run_top :: "int option \<Rightarrow> error + EngineResult" where
  "ex_run_top top_k = match lib0 ex_registry [ex_left] [ex_right, ex_right3] \<lparr>rules = [ex_rule_both]\<rparr>
                  ONE_TO_MANY ''id'' ''id'' top_k"

definition ex_run_cid :: "error + EngineResult" where
  "ex_run_cid = match lib0 ex_registry [ex_left_cid] [ex_right_cid] ex_ruleset
                  ONE_TO_MANY ''cid'' ''cid'' None"

definition ex_run_lazy :: "error + EngineResult" where
  "ex_run_lazy = match lib0 ex_registry [ex_left] [ex_right] \<lparr>rules = [ex_rule_email_nostop, ex_rule_unknown]\<rparr>
                  ONE_TO_MANY ''id'' ''id'' None"

definition ex_run_unknown :: "error + EngineResult" where
  "ex_run_unknown = match lib0 ex_registry [ex_left] [ex_right] \<lparr>rules = [ex_rule_name, ex_rule_unknown]\<rparr>
                  ONE_TO_MANY ''id'' ''id'' None"

section \<open>Lemmas about the engine\<close>

lemma score_fields_ok:
  assumes "\<forall>fc\<in>set fcs. \<exists>x. eval_binding reg left right rule fc = Inr x"
  shows "score_fields lib reg left right rule fcs (ws, amp, fss) =
    Inr (foldl (\<lambda>acc fc. float_add lib acc
                   (float_mul lib (binding_score reg left right rule fc) (fc_weight fc))) ws fcs,
         amp \<and> (\<forall>fc\<in>set fcs. fc_must fc \<longrightarrow> effective_threshold fc \<le> binding_score reg left right rule fc),
         fss @ map (\<lambda>fc. mk_field_score fc (binding_score reg left right rule fc)
                            (binding_details reg left right rule fc)) fcs)"
  using assms
proof (induction fcs arbitrary: ws amp fss)
  case Nil
  then show ?case by simp
next
  case (Cons fc fcs)
  from Cons.prems obtain s d where e: "eval_binding reg left right rule fc = Inr (s, d)"
    by fastforce
  have bs: "binding_score reg left right rule fc = s" "binding_details reg left right rule fc = d"
    using e by (simp_all add: binding_score_def binding_details_def)
  from Cons.prems have rest: "\<forall>fc\<in>set fcs. \<exists>x. eval_binding reg left right rule fc = Inr x"
    by simp
  show ?case
    using e bs Cons.IH[OF rest]
    by (auto simp: Let_def fc_passed_def effective_threshold_def)
qed

lemma py_sum_weights: "py_sum lib (map fc_weight fcs) = weight_sum_of lib fcs"
  by (cases fcs) (simp_all add: py_sum_def weight_sum_of_def)

lemma score_fields_Inl:
  "score_fields lib reg left right rule fcs st = Inl e \<Longrightarrow>
     \<exists>fc\<in>set fcs. eval_binding reg left right rule fc = Inl e"
proof (induction fcs arbitrary: st)
  case Nil
  then show ?case by simp
next
  case (Cons fc fcs)
  obtain ws amp fss where st: "st = (ws, amp, fss)" by (cases st)
  from Cons show ?case unfolding st
    by (auto split: sum.splits simp: Let_def)
qed

lemma score_fields_first_error:
  assumes "\<forall>f\<in>set fpre. \<exists>x. eval_binding reg left right rule f = Inr x"
      and "eval_binding reg left right rule fc = Inl e"
  shows "score_fields lib reg left right rule (fpre @ fc # frest) st = Inl e"
  using assms(1)
proof (induction fpre arbitrary: st)
  case Nil
  obtain ws amp fss where st: "st = (ws, amp, fss)" by (cases st)
  show ?case unfolding st using assms(2) by simp
next
  case (Cons f fpre)
  obtain ws amp fss where st: "st = (ws, amp, fss)" by (cases st)
  from Cons.prems obtain s d where e: "eval_binding reg left right rule f = Inr (s, d)"
    by fastforce
  from Cons.prems have rest: "\<forall>f\<in>set fpre. \<exists>x. eval_binding reg left right rule f = Inr x"
    by simp
  show ?case unfolding st using e Cons.IH[OF rest] by (simp add: Let_def)
qed

lemma collect_scores_Inr:
  "collect_scores f xs = Inr ss \<Longrightarrow> map f xs = map Inr ss"
  by (induction xs arbitrary: ss) (auto split: sum.splits)

lemma collect_scores_map:
  "map f xs = map Inr ss \<Longrightarrow> collect_scores f xs = Inr ss"
proof (induction xs arbitrary: ss)
  case Nil
  then show ?case by simp
next
  case (Cons x xs)
  then obtain s ss' where "ss = s # ss'" by (cases ss) auto
  with Cons show ?case by auto
qed

lemma collect_scores_Inl:
  "collect_scores f xs = Inl e \<Longrightarrow> \<exists>x\<in>set xs. f x = Inl e"
  by (induction xs) (auto split: sum.splits)

lemma collect_scores_fails:
  "x \<in> set xs \<Longrightarrow> f x = Inl e \<Longrightarrow> \<exists>e'. collect_scores f xs = Inl e'"
  by (induction xs) (auto split: sum.splits)

lemma set_update_subset: "set (AList.update k v al) \<subseteq> insert (k, v) (set al)"
  by (induction al) auto

lemma index_loop_keys:
  "index_loop pair ident top_k others xs (mi, um) = Inr (mi', um') \<Longrightarrow>
     fst ` set mi' = fst ` set mi \<union> ident ` {x \<in> set xs. has_match pair others x} \<and>
     um' = um @ map ident (filter (\<lambda>x. \<not> has_match pair others x) xs)"
proof (induction xs arbitrary: mi um)
  case Nil
  then show ?case by simp
next
  case (Cons x xs)
  from Cons.prems obtain scores where sc: "collect_scores (pair x) others = Inr scores"
    by (auto split: sum.splits)
  show ?case
  proof (cases "filter ps_matched scores = []")
    case True
    with sc Cons.prems
    have "index_loop pair ident top_k others xs (mi, um @ [ident x]) = Inr (mi', um')"
      by simp
    from Cons.IH[OF this] True sc show ?thesis
      by (auto simp: has_match_def)
  next
    case False
    with sc Cons.prems
    have "index_loop pair ident top_k others xs
            (AList.update (ident x) (truncate_top_k top_k (sort_key match_sort_key (filter ps_matched scores))) mi, um)
          = Inr (mi', um')"
      by simp
    from Cons.IH[OF this] False sc show ?thesis
      by (auto simp: has_match_def dom_update)
  qed
qed

lemma index_loop_distinct_keys:
  "index_loop pair ident top_k others xs (mi, um) = Inr (mi', um') \<Longrightarrow>
     distinct (map fst mi) \<Longrightarrow> distinct (map fst mi')"
proof (induction xs arbitrary: mi um)
  case Nil
  then show ?case by simp
next
  case (Cons x xs)
  then show ?case
    by (auto split: sum.splits if_splits simp: Let_def distinct_update)
qed

lemma index_loop_entries:
  "index_loop pair ident top_k others xs (mi, um) = Inr (mi', um') \<Longrightarrow>
     (key, lst) \<in> set mi' \<Longrightarrow>
     (key, lst) \<in> set mi \<or>
     (\<exists>x\<in>set xs. \<exists>scores. ident x = key \<and> collect_scores (pair x) others = Inr scores \<and>
        filter ps_matched scores \<noteq> [] \<and>
        lst = truncate_top_k top_k (sort_key match_sort_key (filter ps_matched scores)))"
proof (induction xs arbitrary: mi um)
  case Nil
  then show ?case by simp
next
  case (Cons x xs)
  from Cons.prems obtain scores where sc: "collect_scores (pair x) others = Inr scores"
    by (auto split: sum.splits)
  show ?case
  proof (cases "filter ps_matched scores = []")
    case True
    with sc Cons.prems
    have "index_loop pair ident top_k others xs (mi, um @ [ident x]) = Inr (mi', um')"
      by simp
    from Cons.IH[OF this Cons.prems(2)] show ?thesis by auto
  next
    case False
    let ?e = "truncate_top_k top_k (sort_key match_sort_key (filter ps_matched scores))"
    from False sc Cons.prems
    have "index_loop pair ident top_k others xs (AList.update (ident x) ?e mi, um) = Inr (mi', um')"
      by simp
    from Cons.IH[OF this Cons.prems(2)]
    show ?thesis
    proof
      assume "(key, lst) \<in> set (AList.update (ident x) ?e mi)"
      with set_update_subset[of "ident x" ?e mi]
      have "(key, lst) = (ident x, ?e) \<or> (key, lst) \<in> set mi" by auto
      with sc False show ?thesis by auto
    next
      assume "\<exists>x\<in>set xs. \<exists>scores. ident x = key \<and> collect_scores (pair x) others = Inr scores \<and>
        filter ps_matched scores \<noteq> [] \<and>
        lst = truncate_top_k top_k (sort_key match_sort_key (filter ps_matched scores))"
      then show ?thesis by auto
    qed
  qed
qed

lemma index_loop_Inl:
  "index_loop pair ident top_k others xs st = Inl e \<Longrightarrow>
     \<exists>x\<in>set xs. collect_scores (pair x) others = Inl e"
proof (induction xs arbitrary: st)
  case Nil
  then show ?case by simp
next
  case (Cons x xs)
  obtain mi um where st: "st = (mi, um)" by (cases st)
  from Cons show ?case unfolding st
    by (auto split: sum.splits if_splits simp: Let_def)
qed

lemma index_loop_fails:
  "x \<in> set xs \<Longrightarrow> collect_scores (pair x) others = Inl e \<Longrightarrow>
     \<exists>e'. index_loop pair ident top_k others xs st = Inl e'"
proof (induction xs arbitrary: st)
  case Nil
  then show ?case by simp
next
  case (Cons y ys)
  obtain mi um where st: "st = (mi, um)" by (cases st)
  from Cons show ?case unfolding st
    by (auto split: sum.splits if_splits simp: Let_def)
qed

lemma rules_loop_first_match:
  assumes "\<forall>q\<in>set pre. \<exists>s. score_pair lib reg left right q = Inr s \<and> \<not> ps_matched s"
      and "score_pair lib reg left right rule = Inr ps" and "ps_matched ps"
  shows "rules_loop lib reg left right (pre @ rule # rest) best = Inr (Inl ps)"
  using assms(1)
proof (induction pre arbitrary: best)
  case Nil
  then show ?case using assms(2,3) by simp
next
  case (Cons q pre)
  then show ?case by auto
qed

lemma rules_loop_first_error:
  assumes "\<forall>q\<in>set pre. \<exists>s. score_pair lib reg left right q = Inr s \<and> \<not> ps_matched s"
      and "score_pair lib reg left right rule = Inl e"
  shows "rules_loop lib reg left right (pre @ rule # rest) best = Inl e"
  using assms(1)
proof (induction pre arbitrary: best)
  case Nil
  then show ?case using assms(2) by simp
next
  case (Cons q pre)
  then show ?case by auto
qed




lemma match_one_to_many:
  "match lib reg L R ruleset ONE_TO_MANY lf rf top_k =
     (case index_loop (pair_left lib reg (rules ruleset)) (record_id lib lf) top_k R L ([], []) of
        Inl e \<Rightarrow> Inl e
      | Inr (mi, um) \<Rightarrow>
          Inr \<lparr>er_cardinality = ONE_TO_MANY, er_indexed_by = ''left'',
               er_matches_index = mi, er_unmatched_left_ids = um,
               er_unmatched_right_ids =
                 filter (\<lambda>rid. rid \<notin> set (map ps_right_id (concat (map snd mi))))
                   (map fst (id_map lib rf R))\<rparr>)"
  unfolding match_def pair_left_def[abs_def]
  by (simp add: Let_def split: sum.splits prod.splits)

lemma match_many_to_one:
  "match lib reg L R ruleset MANY_TO_ONE lf rf top_k =
     (case index_loop (pair_right lib reg (rules ruleset)) (record_id lib rf) top_k L R ([], []) of
        Inl e \<Rightarrow> Inl e
      | Inr (mi, um) \<Rightarrow>
          Inr \<lparr>er_cardinality = MANY_TO_ONE, er_indexed_by = ''right'',
               er_matches_index = mi,
               er_unmatched_left_ids =
                 filter (\<lambda>lid. lid \<notin> set (map ps_left_id (concat (map snd mi))))
                   (map fst (id_map lib lf L)),
               er_unmatched_right_ids = um\<rparr>)"
  unfolding match_def pair_right_def[abs_def]
  by (simp add: Let_def split: sum.splits prod.splits)

lemma distinct_foldl_update:
  "distinct (map fst m) \<Longrightarrow> distinct (map fst (foldl (\<lambda>m r. AList.update (g r) r m) m rs))"
  by (induction rs arbitrary: m) (simp_all add: distinct_update)

lemma distinct_id_map: "distinct (map fst (id_map lib f rs))"
  unfolding id_map_def by (rule distinct_foldl_update) simp

lemma keys_foldl_update:
  "fst ` set (foldl (\<lambda>m r. AList.update (g r) r m) m rs) = fst ` set m \<union> g ` set rs"
  by (induction rs arbitrary: m) (auto simp: dom_update)

lemma keys_id_map: "set (map fst (id_map lib f rs)) = record_id lib f ` set rs"
  unfolding id_map_def using keys_foldl_update[of "record_id lib f" "[]" rs] by simp

lemma match_one_to_many_Inr:
  assumes "match lib reg L R ruleset ONE_TO_MANY lf rf top_k = Inr res"
  shows "\<exists>mi um. index_loop (pair_left lib reg (rules ruleset)) (record_id lib lf) top_k R L ([], [])
                    = Inr (mi, um) \<and>
           er_matches_index res = mi \<and> er_unmatched_left_ids res = um \<and>
           er_unmatched_right_ids res =
             filter (\<lambda>rid. rid \<notin> set (map ps_right_id (concat (map snd mi))))
               (map fst (id_map lib rf R))"
proof (cases "index_loop (pair_left lib reg (rules ruleset)) (record_id lib lf) top_k R L ([], [])")
  case (Inl e)
  with assms show ?thesis by (simp add: match_one_to_many)
next
  case (Inr st)
  obtain mi um where st: "st = (mi, um)" by (cases st)
  from assms Inr have "res = \<lparr>er_cardinality = ONE_TO_MANY, er_indexed_by = ''left'',
               er_matches_index = mi, er_unmatched_left_ids = um,
               er_unmatched_right_ids =
                 filter (\<lambda>rid. rid \<notin> set (map ps_right_id (concat (map snd mi))))
                   (map fst (id_map lib rf R))\<rparr>"
    unfolding st match_one_to_many by simp
  then have "er_matches_index res = mi" "er_unmatched_left_ids res = um"
    "er_unmatched_right_ids res =
       filter (\<lambda>rid. rid \<notin> set (map ps_right_id (concat (map snd mi)))) (map fst (id_map lib rf R))"
    by simp_all
  with Inr st show ?thesis by blast
qed

lemma match_many_to_one_Inr:
  assumes "match lib reg L R ruleset MANY_TO_ONE lf rf top_k = Inr res"
  shows "\<exists>mi um. index_loop (pair_right lib reg (rules ruleset)) (record_id lib rf) top_k L R ([], [])
                    = Inr (mi, um) \<and>
           er_matches_index res = mi \<and> er_unmatched_right_ids res = um \<and>
           er_unmatched_left_ids res =
             filter (\<lambda>lid. lid \<notin> set (map ps_left_id (concat (map snd mi))))
               (map fst (id_map lib lf L))"
proof (cases "index_loop (pair_right lib reg (rules ruleset)) (record_id lib rf) top_k L R ([], [])")
  case (Inl e)
  with assms show ?thesis by (simp add: match_many_to_one)
next
  case (Inr st)
  obtain mi um where st: "st = (mi, um)" by (cases st)
  from assms Inr have "res = \<lparr>er_cardinality = MANY_TO_ONE, er_indexed_by = ''right'',
               er_matches_index = mi,
               er_unmatched_left_ids =
                 filter (\<lambda>lid. lid \<notin> set (map ps_left_id (concat (map snd mi))))
                   (map fst (id_map lib lf L)),
               er_unmatched_right_ids = um\<rparr>"
    unfolding st match_many_to_one by simp
  then have "er_matches_index res = mi" "er_unmatched_right_ids res = um"
    "er_unmatched_left_ids res =
       filter (\<lambda>lid. lid \<notin> set (map ps_left_id (concat (map snd mi)))) (map fst (id_map lib lf L))"
    by simp_all
  with Inr st show ?thesis by blast
qed

lemma match_sort_key_le: "match_sort_key s \<le> match_sort_key t \<longleftrightarrow> score_order s t"
  by (auto simp: match_sort_key_def score_order_def less_eq_prod_def)

lemma sorted_key_score_order:
  "sorted (map match_sort_key xs) \<longleftrightarrow> sorted_wrt score_order xs"
  by (simp add: sorted_map match_sort_key_le[abs_def])

lemma slice_to_take: "\<exists>n. slice_to xs k = take n xs"
  by (auto simp: slice_to_def)

lemma truncate_top_k_take: "\<exists>n. truncate_top_k top_k xs = take n xs \<or> truncate_top_k top_k xs = xs"
  using slice_to_take[of xs] by (auto simp: truncate_top_k_def split: option.splits)

lemma truncate_sorted:
  "sorted_wrt P xs \<Longrightarrow> sorted_wrt P (truncate_top_k top_k xs)"
  using truncate_top_k_take[of top_k xs] by (auto simp: sorted_wrt_take)

lemma set_truncate: "set (truncate_top_k top_k xs) \<subseteq> set xs"
  using truncate_top_k_take[of top_k xs] by (auto dest: in_set_takeD)

lemma truncate_nonneg: "0 \<le> k \<Longrightarrow> truncate_top_k (Some k) xs = take (nat k) xs"
  by (simp add: truncate_top_k_def slice_to_def)

lemma match_entries:
  assumes "match lib reg L R ruleset cardinality lf rf top_k = Inr res"
      and "(key, lst) \<in> set (er_matches_index res)"
  shows "\<exists>x\<in>set (if cardinality = ONE_TO_MANY then L else R). \<exists>scores.
           record_id lib (if cardinality = ONE_TO_MANY then lf else rf) x = key \<and>
           index_scores lib reg (rules ruleset) cardinality x
             (if cardinality = ONE_TO_MANY then R else L) = Inr scores \<and>
           lst = truncate_top_k top_k (sort_key match_sort_key (filter ps_matched scores))"
proof (cases cardinality)
  case ONE_TO_MANY
  with assms have m: "match lib reg L R ruleset ONE_TO_MANY lf rf top_k = Inr res" by simp
  from match_one_to_many_Inr[OF m] obtain mi um where
    loop: "index_loop (pair_left lib reg (rules ruleset)) (record_id lib lf) top_k R L ([], []) = Inr (mi, um)"
    and mi: "er_matches_index res = mi"
    by blast
  from assms(2) mi have "(key, lst) \<in> set mi" by simp
  from index_loop_entries[OF loop this] ONE_TO_MANY show ?thesis
    by (auto simp: index_scores_def)
next
  case MANY_TO_ONE
  with assms have m: "match lib reg L R ruleset MANY_TO_ONE lf rf top_k = Inr res" by simp
  from match_many_to_one_Inr[OF m] obtain mi um where
    loop: "index_loop (pair_right lib reg (rules ruleset)) (record_id lib rf) top_k L R ([], []) = Inr (mi, um)"
    and mi: "er_matches_index res = mi"
    by blast
  from assms(2) mi have "(key, lst) \<in> set mi" by simp
  from index_loop_entries[OF loop this] MANY_TO_ONE show ?thesis
    by (auto simp: index_scores_def)
qed

lemma evaluate_first_match:
  assumes "\<forall>q\<in>set pre. \<exists>s. score_pair lib reg left right q = Inr s \<and> \<not> ps_matched s"
      and "score_pair lib reg left right rule = Inr ps" and "ps_matched ps"
  shows "evaluate_rules_for_pair lib reg left right (pre @ rule # rest) = Inr ps"
  using rules_loop_first_match[OF assms] by (simp add: evaluate_rules_for_pair_def)

lemma evaluate_first_error:
  assumes "\<forall>q\<in>set pre. \<exists>s. score_pair lib reg left right q = Inr s \<and> \<not> ps_matched s"
      and "score_pair lib reg left right rule = Inl e"
  shows "evaluate_rules_for_pair lib reg left right (pre @ rule # rest) = Inl e"
  using rules_loop_first_error[OF assms] by (simp add: evaluate_rules_for_pair_def)

lemma collect_scores_member:
  assumes "collect_scores f xs = Inr ss" and "s \<in> set ss"
  shows "\<exists>x\<in>set xs. f x = Inr s"
proof -
  from collect_scores_Inr[OF assms(1)] have m: "map f xs = map Inr ss" .
  from assms(2) have "Inr s \<in> set (map Inr ss)" by simp
  with m have "Inr s \<in> set (map f xs)" by simp
  then show ?thesis by auto
qed

lemma match_scores_from_pairs:
  assumes "match lib reg L R ruleset cardinality lf rf top_k = Inr res"
      and "(key, lst) \<in> set (er_matches_index res)" and "ps \<in> set lst"
  shows "\<exists>l\<in>set L. \<exists>r\<in>set R. evaluate_rules_for_pair lib reg l r (rules ruleset) = Inr ps"
proof -
  from match_entries[OF assms(1,2)] obtain x scores where
    x: "x \<in> set (if cardinality = ONE_TO_MANY then L else R)"
    and sc: "index_scores lib reg (rules ruleset) cardinality x
               (if cardinality = ONE_TO_MANY then R else L) = Inr scores"
    and lst: "lst = truncate_top_k top_k (sort_key match_sort_key (filter ps_matched scores))"
    by blast
  from assms(3) set_truncate[of top_k "sort_key match_sort_key (filter ps_matched scores)"]
  have ps: "ps \<in> set scores" unfolding lst by auto
  show ?thesis
  proof (cases cardinality)
    case ONE_TO_MANY
    with sc have "collect_scores (pair_left lib reg (rules ruleset) x) R = Inr scores"
      by (simp add: index_scores_def)
    from collect_scores_member[OF this ps] x ONE_TO_MANY show ?thesis
      by (auto simp: pair_left_def)
  next
    case MANY_TO_ONE
    with sc have "collect_scores (pair_right lib reg (rules ruleset) x) L = Inr scores"
      by (simp add: index_scores_def)
    from collect_scores_member[OF this ps] x MANY_TO_ONE show ?thesis
      by (auto simp: pair_right_def)
  qed
qed

lemma get_unregistered:
  assumes "normalize_name name \<notin> fst ` set (name_to_comparator reg)"
  shows "get reg name = Inl (KeyError name (names reg))"
proof -
  from assms have "map_of (name_to_comparator reg) (normalize_name name) = None"
    by (simp add: map_of_eq_None_iff)
  then show ?thesis by (simp add: get_def names_def Let_def)
qed

lemma eval_binding_unregistered:
  assumes "normalize_name (fc_comparator fc) \<notin> fst ` set (name_to_comparator reg)"
  shows "eval_binding reg left right rule fc = Inl (KeyError (fc_comparator fc) (names reg))"
  using get_unregistered[OF assms] by (simp add: eval_binding_def evaluate_def)

lemma score_pair_first_error:
  assumes "rule_fields rule = fpre @ fc # frest"
      and "\<forall>f\<in>set fpre. \<exists>x. eval_binding reg left right rule f = Inr x"
      and "eval_binding reg left right rule fc = Inl e"
  shows "score_pair lib reg left right rule = Inl e"
  using score_fields_first_error[OF assms(2,3)] assms(1)
  by (simp add: score_pair_def Let_def)

lemma match_fails:
  assumes "l \<in> set L" and "r \<in> set R"
      and "evaluate_rules_for_pair lib reg l r (rules ruleset) = Inl e"
  shows "\<exists>e' l' r'. match lib reg L R ruleset cardinality lf rf top_k = Inl e' \<and>
           l' \<in> set L \<and> r' \<in> set R \<and>
           evaluate_rules_for_pair lib reg l' r' (rules ruleset) = Inl e'"
proof (cases cardinality)
  case ONE_TO_MANY
  let ?pair = "pair_left lib reg (rules ruleset)"
  from assms(3) have "?pair l r = Inl e" by (simp add: pair_left_def)
  from collect_scores_fails[where f = "?pair l", OF assms(2) this] obtain e1 where
    "collect_scores (?pair l) R = Inl e1" by blast
  from index_loop_fails[where pair = ?pair, OF assms(1) this] obtain e' where
    f: "index_loop ?pair (record_id lib lf) top_k R L ([], []) = Inl e'" by blast
  from index_loop_Inl[OF f] obtain l' where l': "l' \<in> set L" "collect_scores (?pair l') R = Inl e'"
    by blast
  from collect_scores_Inl[OF l'(2)] obtain r' where r': "r' \<in> set R" "?pair l' r' = Inl e'"
    by blast
  from f have "match lib reg L R ruleset cardinality lf rf top_k = Inl e'"
    unfolding ONE_TO_MANY match_one_to_many by simp
  with l'(1) r' show ?thesis by (auto simp: pair_left_def)
next
  case MANY_TO_ONE
  let ?pair = "pair_right lib reg (rules ruleset)"
  from assms(3) have "?pair r l = Inl e" by (simp add: pair_right_def)
  from collect_scores_fails[where f = "?pair r", OF assms(1) this] obtain e1 where
    "collect_scores (?pair r) L = Inl e1" by blast
  from index_loop_fails[where pair = ?pair, OF assms(2) this] obtain e' where
    f: "index_loop ?pair (record_id lib rf) top_k L R ([], []) = Inl e'" by blast
  from index_loop_Inl[OF f] obtain r' where r': "r' \<in> set R" "collect_scores (?pair r') L = Inl e'"
    by blast
  from collect_scores_Inl[OF r'(2)] obtain l' where l': "l' \<in> set L" "?pair r' l' = Inl e'"
    by blast
  from f have "match lib reg L R ruleset cardinality lf rf top_k = Inl e'"
    unfolding MANY_TO_ONE match_many_to_one by simp
  with r'(1) l' show ?thesis by (auto simp: pair_right_def)
qed

lemma unmatched_lists:
  assumes "match lib reg L R ruleset cardinality lf rf top_k = Inr res"
  shows "(cardinality = ONE_TO_MANY \<longrightarrow>
            distinct (er_unmatched_right_ids res) \<and>
            er_unmatched_left_ids res =
              map (record_id lib lf) (filter (\<lambda>x. \<not> has_match (pair_left lib reg (rules ruleset)) R x) L)) \<and>
         (cardinality = MANY_TO_ONE \<longrightarrow>
            distinct (er_unmatched_left_ids res) \<and>
            er_unmatched_right_ids res =
              map (record_id lib rf) (filter (\<lambda>x. \<not> has_match (pair_right lib reg (rules ruleset)) L x) R))"
proof (cases cardinality)
  case ONE_TO_MANY
  with assms have m: "match lib reg L R ruleset ONE_TO_MANY lf rf top_k = Inr res" by simp
  from match_one_to_many_Inr[OF m] obtain mi um where
    loop: "index_loop (pair_left lib reg (rules ruleset)) (record_id lib lf) top_k R L ([], []) = Inr (mi, um)"
    and r: "er_unmatched_left_ids res = um"
       "er_unmatched_right_ids res =
          filter (\<lambda>rid. rid \<notin> set (map ps_right_id (concat (map snd mi)))) (map fst (id_map lib rf R))"
    by blast
  have "distinct (er_unmatched_right_ids res)"
    unfolding r(2) by (rule distinct_filter) (rule distinct_id_map)
  with index_loop_keys[OF loop] r(1) ONE_TO_MANY show ?thesis by simp
next
  case MANY_TO_ONE
  with assms have m: "match lib reg L R ruleset MANY_TO_ONE lf rf top_k = Inr res" by simp
  from match_many_to_one_Inr[OF m] obtain mi um where
    loop: "index_loop (pair_right lib reg (rules ruleset)) (record_id lib rf) top_k L R ([], []) = Inr (mi, um)"
    and r: "er_unmatched_right_ids res = um"
       "er_unmatched_left_ids res =
          filter (\<lambda>lid. lid \<notin> set (map ps_left_id (concat (map snd mi)))) (map fst (id_map lib lf L))"
    by blast
  have "distinct (er_unmatched_left_ids res)"
    unfolding r(2) by (rule distinct_filter) (rule distinct_id_map)
  with index_loop_keys[OF loop] r(1) MANY_TO_ONE show ?thesis by simp
qed

lemma not_isl_Inr: "\<not> isl x \<Longrightarrow> \<exists>s. x = Inr s"
  by (cases x) auto

lemma unmatched_scoreI:
  "\<not> isl (score_pair lib reg left right q) \<Longrightarrow> \<not> rule_matches lib reg left right q \<Longrightarrow>
     \<exists>s. score_pair lib reg left right q = Inr s \<and> \<not> ps_matched s"
  by (cases "score_pair lib reg left right q") (auto simp: rule_matches_def)

lemma collect_scores_Inl_first:
  "collect_scores f ys = Inl e \<Longrightarrow>
     \<exists>ys1 y ys2. ys = ys1 @ y # ys2 \<and> (\<forall>y0\<in>set ys1. \<not> isl (f y0)) \<and> f y = Inl e"
proof (induction ys)
  case Nil
  then show ?case by simp
next
  case (Cons a ys)
  show ?case
  proof (cases "f a")
    case (Inl e')
    with Cons.prems have "e' = e" by simp
    with Inl have "a # ys = [] @ a # ys \<and> (\<forall>y0\<in>set []. \<not> isl (f y0)) \<and> f a = Inl e" by simp
    then show ?thesis by blast
  next
    case (Inr s)
    with Cons.prems have "collect_scores f ys = Inl e" by (simp split: sum.splits)
    from Cons.IH[OF this] obtain ys1 y ys2 where
      h: "ys = ys1 @ y # ys2" "\<forall>y0\<in>set ys1. \<not> isl (f y0)" "f y = Inl e" by blast
    from h Inr have "a # ys = (a # ys1) @ y # ys2 \<and> (\<forall>y0\<in>set (a # ys1). \<not> isl (f y0)) \<and> f y = Inl e"
      by simp
    then show ?thesis by blast
  qed
qed

lemma collect_scores_Inr_all:
  "collect_scores f ys = Inr ss \<Longrightarrow> \<forall>y0\<in>set ys. \<not> isl (f y0)"
  by (induction ys arbitrary: ss) (auto split: sum.splits)

lemma index_loop_Inl_first:
  "index_loop pair ident top_k others xs st = Inl e \<Longrightarrow>
     \<exists>xs1 x xs2. xs = xs1 @ x # xs2 \<and>
        (\<forall>x0\<in>set xs1. \<not> isl (collect_scores (pair x0) others)) \<and>
        collect_scores (pair x) others = Inl e"
proof (induction xs arbitrary: st)
  case Nil
  then show ?case by simp
next
  case (Cons a xs)
  obtain mi um where st: "st = (mi, um)" by (cases st)
  show ?case
  proof (cases "collect_scores (pair a) others")
    case (Inl e')
    with Cons.prems have "e' = e" unfolding st by simp
    with Inl have "a # xs = [] @ a # xs \<and>
        (\<forall>x0\<in>set []. \<not> isl (collect_scores (pair x0) others)) \<and>
        collect_scores (pair a) others = Inl e" by simp
    then show ?thesis by blast
  next
    case (Inr scores)
    with Cons.prems obtain st' where "index_loop pair ident top_k others xs st' = Inl e"
      unfolding st by (auto simp: Let_def split: if_splits)
    from Cons.IH[OF this] obtain xs1 x xs2 where
      h: "xs = xs1 @ x # xs2" "\<forall>x0\<in>set xs1. \<not> isl (collect_scores (pair x0) others)"
         "collect_scores (pair x) others = Inl e" by blast
    from h Inr have "a # xs = (a # xs1) @ x # xs2 \<and>
        (\<forall>x0\<in>set (a # xs1). \<not> isl (collect_scores (pair x0) others)) \<and>
        collect_scores (pair x) others = Inl e" by simp
    then show ?thesis by blast
  qed
qed

lemma index_loop_first_error:
  assumes "index_loop pair ident top_k others xs st = Inl e"
  shows "first_error pair xs others e"
proof -
  from index_loop_Inl_first[OF assms] obtain xs1 x xs2 where
    h: "xs = xs1 @ x # xs2" "\<forall>x0\<in>set xs1. \<not> isl (collect_scores (pair x0) others)"
       "collect_scores (pair x) others = Inl e" by blast
  from collect_scores_Inl_first[OF h(3)] obtain ys1 y ys2 where
    g: "others = ys1 @ y # ys2" "\<forall>y0\<in>set ys1. \<not> isl (pair x y0)" "pair x y = Inl e" by blast
  have "\<forall>x0\<in>set xs1. \<forall>y0\<in>set others. \<not> isl (pair x0 y0)"
  proof
    fix x0 assume "x0 \<in> set xs1"
    with h(2) obtain ss where "collect_scores (pair x0) others = Inr ss"
      by (cases "collect_scores (pair x0) others") auto
    from collect_scores_Inr_all[OF this] show "\<forall>y0\<in>set others. \<not> isl (pair x0 y0)" .
  qed
  with h(1) g show ?thesis unfolding first_error_def by blast
qed

lemma match_first_error:
  assumes "match lib reg L R ruleset cardinality lf rf top_k = Inl e"
  shows "if cardinality = ONE_TO_MANY
         then first_error (pair_left lib reg (rules ruleset)) L R e
         else first_error (pair_right lib reg (rules ruleset)) R L e"
proof (cases cardinality)
  case ONE_TO_MANY
  with assms have m: "match lib reg L R ruleset ONE_TO_MANY lf rf top_k = Inl e" by simp
  have "index_loop (pair_left lib reg (rules ruleset)) (record_id lib lf) top_k R L ([], []) = Inl e"
    using m unfolding match_one_to_many by (simp split: sum.splits prod.splits)
  from index_loop_first_error[OF this] ONE_TO_MANY show ?thesis by simp
next
  case MANY_TO_ONE
  with assms have m: "match lib reg L R ruleset MANY_TO_ONE lf rf top_k = Inl e" by simp
  have "index_loop (pair_right lib reg (rules ruleset)) (record_id lib rf) top_k L R ([], []) = Inl e"
    using m unfolding match_many_to_one by (simp split: sum.splits prod.splits)
  from index_loop_first_error[OF this] MANY_TO_ONE show ?thesis by simp
qed

section \<open>Lemmas about the sequence matcher\<close>

text \<open>The block found lies inside the range of \<open>b\<close> it was searched in.\<close>

definition j2len_in_b :: "nat \<Rightarrow> (nat \<rightharpoonup> nat) \<Rightarrow> bool" where
  "j2len_in_b blo j2len = (\<forall>j v. j2len j = Some v \<longrightarrow> blo \<le> j \<and> v \<le> j + 1 - blo)"

definition best_in_b :: "nat \<Rightarrow> nat \<Rightarrow> nat \<times> nat \<times> nat \<Rightarrow> bool" where
  "best_in_b blo bhi best = (case best of (besti, bestj, bestsize) \<Rightarrow> blo \<le> bestj \<and> bestj + bestsize \<le> bhi)"

lemma j2len_get_in_b:
  assumes "j2len_in_b blo j2len" and "blo \<le> j"
  shows "j2len_get j2len j \<le> j - blo"
proof (cases "j = 0")
  case True
  then show ?thesis by (simp add: j2len_get_def)
next
  case False
  show ?thesis
  proof (cases "j2len (j - 1)")
    case None
    then show ?thesis using False by (simp add: j2len_get_def)
  next
    case (Some v)
    with assms(1) have "blo \<le> j - 1" "v \<le> (j - 1) + 1 - blo"
      unfolding j2len_in_b_def by blast+
    with False Some show ?thesis by (simp add: j2len_get_def)
  qed
qed

lemma flm_inner_in_b:
  assumes "j2len_in_b blo j2len"
  shows "j2len_in_b blo newj2len \<Longrightarrow> best_in_b blo bhi best \<Longrightarrow>
         flm_inner j2len i blo bhi js (newj2len, best) = (newj2len', best') \<Longrightarrow>
         j2len_in_b blo newj2len' \<and> best_in_b blo bhi best'"
proof (induction js arbitrary: newj2len best)
  case Nil
  then show ?case by simp
next
  case (Cons j js)
  obtain besti bestj bestsize where best: "best = (besti, bestj, bestsize)"
    by (cases best)
  define k where "k = j2len_get j2len j + 1"
  consider (lo) "j < blo" | (hi) "\<not> j < blo" "j \<ge> bhi"
    | (new) "\<not> j < blo" "\<not> j \<ge> bhi" "k > bestsize"
    | (old) "\<not> j < blo" "\<not> j \<ge> bhi" "\<not> k > bestsize"
    by blast
  then show ?case
  proof cases
    case lo
    with Cons.prems(3) have "flm_inner j2len i blo bhi js (newj2len, best) = (newj2len', best')"
      unfolding best by simp
    from Cons.IH[OF Cons.prems(1,2) this] show ?thesis .
  next
    case hi
    with Cons.prems show ?thesis unfolding best by simp
  next
    case new
    then have bj: "blo \<le> j" "j < bhi" by simp_all
    from j2len_get_in_b[OF assms bj(1)] bj have kb: "k \<le> j + 1 - blo"
      unfolding k_def by linarith
    have nj: "j2len_in_b blo (newj2len(j \<mapsto> k))"
      using Cons.prems(1) kb bj unfolding j2len_in_b_def by auto
    have bo: "best_in_b blo bhi (i + 1 - k, j + 1 - k, k)"
      using kb bj unfolding best_in_b_def by simp
    from new Cons.prems(3)
    have "flm_inner j2len i blo bhi js (newj2len(j \<mapsto> k), i + 1 - k, j + 1 - k, k) = (newj2len', best')"
      unfolding best k_def by (simp add: Let_def)
    from Cons.IH[OF nj bo this] show ?thesis .
  next
    case old
    then have bj: "blo \<le> j" "j < bhi" by simp_all
    from j2len_get_in_b[OF assms bj(1)] bj have kb: "k \<le> j + 1 - blo"
      unfolding k_def by linarith
    have nj: "j2len_in_b blo (newj2len(j \<mapsto> k))"
      using Cons.prems(1) kb bj unfolding j2len_in_b_def by auto
    from old Cons.prems(3)
    have "flm_inner j2len i blo bhi js (newj2len(j \<mapsto> k), best) = (newj2len', best')"
      unfolding best k_def by (simp add: Let_def)
    from Cons.IH[OF nj Cons.prems(2) this] show ?thesis .
  qed
qed

lemma flm_outer_in_b:
  "j2len_in_b blo j2len \<Longrightarrow> best_in_b blo bhi best \<Longrightarrow>
   best_in_b blo bhi (flm_outer a b2j blo bhi is (j2len, best))"
proof (induction "is" arbitrary: j2len best)
  case Nil
  then show ?case by simp
next
  case (Cons i "is")
  obtain newj2len best' where
    inner: "flm_inner j2len i blo bhi (b2j_get b2j (a ! i)) (Map.empty, best) = (newj2len, best')"
    by (cases "flm_inner j2len i blo bhi (b2j_get b2j (a ! i)) (Map.empty, best)")
  have e: "j2len_in_b blo Map.empty" by (simp add: j2len_in_b_def)
  from flm_inner_in_b[OF Cons.prems(1) e Cons.prems(2) inner]
  have "j2len_in_b blo newj2len" "best_in_b blo bhi best'" by simp_all
  from Cons.IH[OF this] inner show ?case by simp
qed

lemma extend_left_in_b:
  "extend_left a b alo blo best = best' \<Longrightarrow> best_in_b blo bhi best \<Longrightarrow> best_in_b blo bhi best'"
proof (induction a b alo blo best rule: extend_left.induct)
  case (1 a b alo blo besti bestj bestsize)
  show ?case
  proof (cases "besti > alo \<and> bestj > blo \<and> a ! (besti - 1) = b ! (bestj - 1)")
    case True
    with "1.prems"(1) have "extend_left a b alo blo (besti - 1, bestj - 1, bestsize + 1) = best'"
      by simp
    moreover have "best_in_b blo bhi (besti - 1, bestj - 1, bestsize + 1)"
      using True "1.prems"(2) by (auto simp: best_in_b_def)
    ultimately show ?thesis using "1.IH"[OF True] by blast
  next
    case False
    with "1.prems" show ?thesis by (auto split: if_splits)
  qed
qed

lemma extend_right_in_b:
  "extend_right a b ahi bhi best = best' \<Longrightarrow> best_in_b blo bhi best \<Longrightarrow> best_in_b blo bhi best'"
proof (induction a b ahi bhi best rule: extend_right.induct)
  case (1 a b ahi bhi besti bestj bestsize)
  show ?case
  proof (cases "besti + bestsize < ahi \<and> bestj + bestsize < bhi \<and>
                a ! (besti + bestsize) = b ! (bestj + bestsize)")
    case True
    with "1.prems"(1) have "extend_right a b ahi bhi (besti, bestj, bestsize + 1) = best'"
      by simp
    moreover have "best_in_b blo bhi (besti, bestj, bestsize + 1)"
      using True "1.prems"(2) by (auto simp: best_in_b_def)
    ultimately show ?thesis using "1.IH"[OF True] by blast
  next
    case False
    with "1.prems" show ?thesis by (auto split: if_splits)
  qed
qed

lemma find_longest_match_in_b:
  assumes "find_longest_match a b b2j alo ahi blo bhi = (i, j, k)" and "blo \<le> bhi"
  shows "blo \<le> j \<and> j + k \<le> bhi"
proof -
  have "best_in_b blo bhi (flm_outer a b2j blo bhi [alo..<ahi] (Map.empty, alo, blo, 0))"
    by (rule flm_outer_in_b) (simp_all add: j2len_in_b_def best_in_b_def assms(2))
  then have "best_in_b blo bhi
               (extend_left a b alo blo (flm_outer a b2j blo bhi [alo..<ahi] (Map.empty, alo, blo, 0)))"
    by (rule extend_left_in_b[OF refl])
  then have "best_in_b blo bhi (find_longest_match a b b2j alo ahi blo bhi)"
    unfolding find_longest_match_def by (rule extend_right_in_b[OF refl])
  with assms show ?thesis by (simp add: best_in_b_def)
qed

text \<open>The blocks that the queue loop collects fit side by side into both strings.\<close>

definition region_ok :: "nat \<times> nat \<times> nat \<times> nat \<Rightarrow> bool" where
  "region_ok r = (case r of (alo, ahi, blo, bhi) \<Rightarrow> alo \<le> ahi \<and> blo \<le> bhi)"

definition region_cap :: "nat \<times> nat \<times> nat \<times> nat \<Rightarrow> nat" where
  "region_cap r = (case r of (alo, ahi, blo, bhi) \<Rightarrow> min (ahi - alo) (bhi - blo))"

lemma gmb_loop_total:
  "\<forall>r\<in>set queue. region_ok r \<Longrightarrow>
   sum_list (map block_size (gmb_loop a b b2j queue blocks))
     \<le> sum_list (map block_size blocks) + sum_list (map region_cap queue)"
proof (induction a b b2j queue blocks rule: gmb_loop.induct)
  case (1 a b b2j queue blocks)
  show ?case
  proof (cases "queue = []")
    case True
    then show ?thesis by (simp add: gmb_loop.simps)
  next
    case False
    obtain alo ahi blo bhi where l: "last queue = (alo, ahi, blo, bhi)"
      by (cases "last queue") auto
    obtain i j k where f: "find_longest_match a b b2j alo ahi blo bhi = (i, j, k)"
      by (cases "find_longest_match a b b2j alo ahi blo bhi") auto
    from append_butlast_last_id[OF False] l
    have q: "queue = butlast queue @ [(alo, ahi, blo, bhi)]" by simp
    then have "sum_list (map region_cap queue)
                 = sum_list (map region_cap (butlast queue @ [(alo, ahi, blo, bhi)]))"
      by simp
    then have cap: "sum_list (map region_cap queue)
                 = sum_list (map region_cap (butlast queue)) + min (ahi - alo) (bhi - blo)"
      by (simp add: region_cap_def)
    from q "1.prems" have rok: "alo \<le> ahi" "blo \<le> bhi"
      by (metis in_set_conv_decomp region_ok_def case_prod_conv)+
    have bl: "\<forall>r\<in>set (butlast queue). region_ok r"
      using "1.prems" by (auto dest: in_set_butlastD)
    from find_longest_match_in_a[OF f] rok have ia: "alo \<le> i" "i + k \<le> ahi" by simp_all
    from find_longest_match_in_b[OF f rok(2)] have jb: "blo \<le> j" "j + k \<le> bhi" by simp_all
    show ?thesis
    proof (cases "k = 0")
      case True
      have "gmb_loop a b b2j queue blocks = gmb_loop a b b2j (butlast queue) blocks"
        by (subst gmb_loop.simps) (simp add: False l f True)
      moreover from True have kz: "\<not> k \<noteq> 0" by simp
      from "1.IH"(2)[OF False l[symmetric] refl refl f[symmetric] refl kz bl]
      have "sum_list (map block_size (gmb_loop a b b2j (butlast queue) blocks))
              \<le> sum_list (map block_size blocks) + sum_list (map region_cap (butlast queue))"
        by simp
      ultimately show ?thesis using cap by simp
    next
      case nz: False
      define q' where "q' = butlast queue
                 @ (if alo < i \<and> blo < j then [(alo, i, blo, j)] else [])
                 @ (if i + k < ahi \<and> j + k < bhi then [(i + k, ahi, j + k, bhi)] else [])"
      have step: "gmb_loop a b b2j queue blocks = gmb_loop a b b2j q' (blocks @ [(i, j, k)])"
        unfolding q'_def by (subst gmb_loop.simps) (simp add: False l f nz)
      have qok: "\<forall>r\<in>set q'. region_ok r"
        unfolding q'_def using bl ia jb by (auto simp: region_ok_def)
      from "1.IH"(1)[OF False l[symmetric] refl refl f[symmetric] refl nz qok[unfolded q'_def]]
      have ih: "sum_list (map block_size (gmb_loop a b b2j q' (blocks @ [(i, j, k)])))
              \<le> sum_list (map block_size (blocks @ [(i, j, k)])) + sum_list (map region_cap q')"
        unfolding q'_def .
      have bsz: "sum_list (map block_size (blocks @ [(i, j, k)])) = sum_list (map block_size blocks) + k"
        by (simp add: block_size_def)
      have capq: "sum_list (map region_cap q') + k
              \<le> sum_list (map region_cap (butlast queue)) + min (ahi - alo) (bhi - blo)"
        unfolding q'_def using ia jb by (auto simp: region_cap_def)
      from ih bsz capq cap show ?thesis unfolding step by linarith
    qed
  qed
qed

lemma collapse_loop_total:
  "collapse_loop blocks ((i1, j1, k1), non_adjacent) = ((i', j', k'), non_adjacent') \<Longrightarrow>
   sum_list (map block_size non_adjacent') + k'
     = sum_list (map block_size non_adjacent) + k1 + sum_list (map block_size blocks)"
proof (induction blocks arbitrary: i1 j1 k1 non_adjacent)
  case Nil
  then show ?case by simp
next
  case (Cons x blocks)
  obtain i2 j2 k2 where x: "x = (i2, j2, k2)" by (cases x)
  show ?case
  proof (cases "i1 + k1 = i2 \<and> j1 + k1 = j2")
    case True
    with Cons.prems have "collapse_loop blocks ((i1, j1, k1 + k2), non_adjacent) = ((i', j', k'), non_adjacent')"
      unfolding x by simp
    from Cons.IH[OF this] show ?thesis unfolding x by (simp add: block_size_def)
  next
    case False
    with Cons.prems have "collapse_loop blocks
        ((i2, j2, k2), if k1 \<noteq> 0 then non_adjacent @ [(i1, j1, k1)] else non_adjacent)
          = ((i', j', k'), non_adjacent')"
      unfolding x by simp
    from Cons.IH[OF this] show ?thesis unfolding x by (auto simp: block_size_def)
  qed
qed

lemma get_matching_blocks_total:
  "sum_list (map block_size (get_matching_blocks a b))
     = sum_list (map block_size (gmb_loop a b (chain_b b) [(0, length a, 0, length b)] []))"
proof -
  let ?bs = "gmb_loop a b (chain_b b) [(0, length a, 0, length b)] []"
  obtain t na where "collapse_loop (sort ?bs) ((0, 0, 0), []) = (t, na)"
    by (cases "collapse_loop (sort ?bs) ((0, 0, 0), [])") auto
  moreover obtain i' j' k' where "t = (i', j', k')" by (cases t)
  ultimately have c: "collapse_loop (sort ?bs) ((0, 0, 0), []) = ((i', j', k'), na)" by simp
  from collapse_loop_total[OF c]
  have "sum_list (map block_size na) + k' = sum_list (map block_size (sort ?bs))" by simp
  moreover have "sum_list (map block_size (sort ?bs)) = sum_list (map block_size ?bs)"
  proof -
    have "mset (map block_size (sort ?bs)) = mset (map block_size ?bs)" by simp
    then show ?thesis by (metis sum_mset_sum_list)
  qed
  ultimately show ?thesis
    by (simp add: get_matching_blocks_def Let_def c block_size_def)
qed

lemma ratio_bounds: "0 \<le> ratio a b \<and> ratio a b \<le> 1"
proof -
  let ?m = "sum_list (map block_size (get_matching_blocks a b))"
  have "?m \<le> 0 + sum_list (map region_cap [(0, length a, 0, length b)])"
    unfolding get_matching_blocks_total
    using gmb_loop_total[of "[(0, length a, 0, length b)]" a b "chain_b b" "[]"]
    by (simp add: region_ok_def)
  then have "?m \<le> min (length a) (length b)" by (simp add: region_cap_def)
  then have "2 * ?m \<le> length a + length b" by simp
  then have le: "2 * real ?m \<le> real (length a + length b)" by linarith
  show ?thesis
  proof (cases "length a + length b = 0")
    case True
    then show ?thesis by (simp add: ratio_def calculate_ratio_def)
  next
    case False
    then have "0 < length a + length b" by simp
    then have "0 < real (length a + length b)" by (simp only: of_nat_0_less_iff)
    with le have "2 * real ?m / real (length a + length b) \<le> 1"
      by (simp add: pos_divide_le_eq)
    with False show ?thesis by (simp add: ratio_def calculate_ratio_def)
  qed
qed

text \<open>What \<open>__chain_b\<close> holds for an element: all its positions in \<open>b\<close>, or nothing.\<close>

definition chain_step :: "(char \<times> nat list) list \<Rightarrow> nat \<times> char \<Rightarrow> (char \<times> nat list) list" where
  "chain_step m p = (case p of (i, elt) \<Rightarrow> AList.update elt (b2j_get m elt @ [i]) m)"

lemma b2j_get_update:
  "b2j_get (AList.update x v m) c = (if c = x then v else b2j_get m c)"
  by (simp add: b2j_get_def update_conv')

lemma chain_fold_positions:
  "b2j_get (foldl chain_step [] (List.enumerate 0 xs)) c = [j \<leftarrow> [0..<length xs]. xs ! j = c]"
proof (induction xs arbitrary: c rule: rev_induct)
  case Nil
  then show ?case by (simp add: b2j_get_def)
next
  case (snoc x xs)
  have en: "List.enumerate 0 (xs @ [x]) = List.enumerate 0 xs @ [(length xs, x)]"
    by (simp add: enumerate_append_eq)
  have old: "[j \<leftarrow> [0..<length xs]. (xs @ [x]) ! j = c] = [j \<leftarrow> [0..<length xs]. xs ! j = c]"
    by (rule filter_cong) (auto simp: nth_append)
  show ?case
    unfolding en using snoc.IH[of c] snoc.IH[of x]
    by (simp add: chain_step_def b2j_get_update old)
qed

lemma chain_fold_distinct:
  "distinct (map fst m) \<Longrightarrow> distinct (map fst (foldl chain_step m ps))"
  by (induction ps arbitrary: m) (auto simp: chain_step_def distinct_update split: prod.splits)

lemma map_of_filter_distinct:
  assumes "distinct (map fst al)"
  shows "map_of (filter P al) c = None \<or> map_of (filter P al) c = map_of al c"
proof (cases "map_of (filter P al) c")
  case None
  then show ?thesis by simp
next
  case (Some v)
  then have "(c, v) \<in> set (filter P al)" by (rule map_of_SomeD)
  then have "(c, v) \<in> set al" by simp
  with assms have "map_of al c = Some v" by simp
  with Some show ?thesis by simp
qed

lemma chain_b_positions:
  "b2j_get (chain_b b) c = [] \<or> b2j_get (chain_b b) c = [j \<leftarrow> [0..<length b]. b ! j = c]"
proof -
  let ?m = "foldl chain_step [] (List.enumerate 0 b)"
  have fold_eq: "foldl (\<lambda>m (i, elt). AList.update elt (b2j_get m elt @ [i]) m) [] (List.enumerate 0 b) = ?m"
    by (simp add: chain_step_def[abs_def])
  have d: "distinct (map fst ?m)" by (rule chain_fold_distinct) simp
  have full: "b2j_get ?m c = [j \<leftarrow> [0..<length b]. b ! j = c]" by (rule chain_fold_positions)
  show ?thesis
  proof (cases "length b \<ge> 200")
    case False
    then have "chain_b b = ?m" by (simp add: chain_b_def fold_eq Let_def)
    with full show ?thesis by simp
  next
    case True
    let ?P = "\<lambda>(elt, idxs). \<not> length idxs > length b div 100 + 1"
    from True have cb: "chain_b b = filter ?P ?m" by (simp add: chain_b_def fold_eq Let_def)
    from map_of_filter_distinct[OF d, of ?P c]
    have "b2j_get (filter ?P ?m) c = [] \<or> b2j_get (filter ?P ?m) c = b2j_get ?m c"
      by (auto simp: b2j_get_def)
    with full show ?thesis unfolding cb by simp
  qed
qed

text \<open>
  Matching a string against itself. \<open>run a b2j i\<close> is the number of consecutive
  positions before \<open>i\<close> whose element \<open>b2j\<close> still holds.
\<close>

fun run :: "string \<Rightarrow> (char \<times> nat list) list \<Rightarrow> nat \<Rightarrow> nat" where
  "run a b2j 0 = 0"
| "run a b2j (Suc i) = (if b2j_get b2j (a ! i) \<noteq> [] then run a b2j i + 1 else 0)"

definition diag_inv ::
  "string \<Rightarrow> (char \<times> nat list) list \<Rightarrow> nat \<Rightarrow> nat list \<Rightarrow> (nat \<rightharpoonup> nat) \<times> nat \<times> nat \<times> nat \<Rightarrow> bool" where
  "diag_inv a b2j i rest st =
     (case st of (nj, besti, bestj, bestsize) \<Rightarrow>
        besti = bestj \<and>
        (\<forall>i'\<le>i. run a b2j i' \<le> bestsize) \<and>
        (i \<notin> set rest \<longrightarrow> run a b2j (Suc i) \<le> bestsize \<and> nj i = Some (run a b2j (Suc i))) \<and>
        (\<forall>j v. nj j = Some v \<longrightarrow> v \<le> run a b2j (Suc i) \<and> v \<le> run a b2j (Suc j)))"

lemma flm_inner_diag:
  assumes G: "\<And>j. j2len_get j2len j \<le> run a b2j i \<and> j2len_get j2len j \<le> run a b2j j"
      and D: "j2len_get j2len i = run a b2j i"
      and good: "run a b2j (Suc i) = run a b2j i + 1"
  shows "\<forall>j\<in>set js. j < n \<and> run a b2j (Suc j) = run a b2j j + 1 \<Longrightarrow>
         sorted js \<Longrightarrow> distinct js \<Longrightarrow> diag_inv a b2j i js (nj, best) \<Longrightarrow>
         flm_inner j2len i 0 n js (nj, best) = st' \<Longrightarrow> diag_inv a b2j i [] st'"
proof (induction js arbitrary: nj best)
  case Nil
  then show ?case by simp
next
  case (Cons j js)
  obtain bi bj bs where best: "best = (bi, bj, bs)" by (cases best)
  define k where "k = j2len_get j2len j + 1"
  from Cons.prems(1) have jn: "j < n" and gj: "run a b2j (Suc j) = run a b2j j + 1"
    and rest: "\<forall>j\<in>set js. j < n \<and> run a b2j (Suc j) = run a b2j j + 1"
    by simp_all
  from Cons.prems(2,3) have srt: "sorted js" "distinct js" and jmin: "\<forall>x\<in>set js. j < x"
    by (auto simp: less_le)
  from Cons.prems(4) have inv:
    "bi = bj" "\<forall>i'\<le>i. run a b2j i' \<le> bs"
    "i \<notin> set (j # js) \<longrightarrow> run a b2j (Suc i) \<le> bs \<and> nj i = Some (run a b2j (Suc i))"
    "\<forall>j v. nj j = Some v \<longrightarrow> v \<le> run a b2j (Suc i) \<and> v \<le> run a b2j (Suc j)"
    unfolding best diag_inv_def by simp_all
  from G[of j] good gj have kb: "k \<le> run a b2j (Suc i)" "k \<le> run a b2j (Suc j)"
    unfolding k_def by simp_all
  have nj': "\<forall>x v. (nj(j \<mapsto> k)) x = Some v \<longrightarrow> v \<le> run a b2j (Suc i) \<and> v \<le> run a b2j (Suc x)"
    using inv(4) kb by auto
  show ?case
  proof (cases "j = i")
    case True
    have ki: "k = run a b2j (Suc i)" unfolding k_def True using D good by simp
    have ni: "i \<notin> set js" using Cons.prems(3) True by simp
    show ?thesis
    proof (cases "k > bs")
      case gt: True
      with Cons.prems(5) jn
      have r: "flm_inner j2len i 0 n js (nj(j \<mapsto> k), i + 1 - k, j + 1 - k, k) = st'"
        unfolding best k_def by (simp add: Let_def)
      have "diag_inv a b2j i js (nj(j \<mapsto> k), i + 1 - k, j + 1 - k, k)"
        unfolding diag_inv_def using True ki inv(2) gt nj' by auto
      from Cons.IH[OF rest srt this r] show ?thesis .
    next
      case le: False
      with Cons.prems(5) jn
      have r: "flm_inner j2len i 0 n js (nj(j \<mapsto> k), bi, bj, bs) = st'"
        unfolding best k_def by (simp add: Let_def)
      have "diag_inv a b2j i js (nj(j \<mapsto> k), bi, bj, bs)"
        unfolding diag_inv_def using True ki inv(1,2) le nj' by auto
      from Cons.IH[OF rest srt this r] show ?thesis .
    qed
  next
    case False
    have small: "k \<le> bs"
    proof (cases "j < i")
      case True
      then have "Suc j \<le> i" by simp
      with inv(2) have "run a b2j (Suc j) \<le> bs" by blast
      with kb show ?thesis by simp
    next
      case nlt: False
      with False have "i < j" by simp
      with jmin have "i \<notin> set (j # js)" by auto
      with inv(3) have "run a b2j (Suc i) \<le> bs" by blast
      with kb show ?thesis by simp
    qed
    with Cons.prems(5) jn
    have r: "flm_inner j2len i 0 n js (nj(j \<mapsto> k), bi, bj, bs) = st'"
      unfolding best k_def by (simp add: Let_def)
    have "diag_inv a b2j i js (nj(j \<mapsto> k), bi, bj, bs)"
      unfolding diag_inv_def using False inv nj' by auto
    from Cons.IH[OF rest srt this r] show ?thesis .
  qed
qed

definition outer_inv ::
  "string \<Rightarrow> (char \<times> nat list) list \<Rightarrow> nat \<Rightarrow> (nat \<rightharpoonup> nat) \<times> nat \<times> nat \<times> nat \<Rightarrow> bool" where
  "outer_inv a b2j i st =
     (case st of (j2len, besti, bestj, bestsize) \<Rightarrow>
        j2len_get j2len i = run a b2j i \<and>
        (\<forall>j v. j2len j = Some v \<longrightarrow> v \<le> run a b2j i \<and> v \<le> run a b2j (Suc j)) \<and>
        besti = bestj \<and>
        (\<forall>i'\<le>i. run a b2j i' \<le> bestsize))"

lemma outer_inv_get:
  assumes "\<forall>j v. j2len j = Some v \<longrightarrow> v \<le> run a b2j i \<and> v \<le> run a b2j (Suc j)"
  shows "j2len_get j2len j \<le> run a b2j i \<and> j2len_get j2len j \<le> run a b2j j"
proof (cases "j = 0")
  case True
  then show ?thesis by (simp add: j2len_get_def)
next
  case False
  then obtain j' where j: "j = Suc j'" by (cases j) auto
  show ?thesis
  proof (cases "j2len j'")
    case None
    then show ?thesis by (simp add: j2len_get_def j)
  next
    case (Some v)
    with assms have "v \<le> run a b2j i \<and> v \<le> run a b2j (Suc j')" by blast
    with Some show ?thesis by (simp add: j2len_get_def j)
  qed
qed

lemma flm_row_diag:
  assumes b2j: "\<And>c. b2j_get b2j c = [] \<or> b2j_get b2j c = [j \<leftarrow> [0..<n]. a ! j = c]"
      and i: "i < n"
      and inv: "outer_inv a b2j i (j2len, best)"
  shows "outer_inv a b2j (Suc i) (flm_inner j2len i 0 n (b2j_get b2j (a ! i)) (Map.empty, best))"
proof -
  obtain bi bj bs where best: "best = (bi, bj, bs)" by (cases best)
  from inv have D: "j2len_get j2len i = run a b2j i"
    and I2: "\<forall>j v. j2len j = Some v \<longrightarrow> v \<le> run a b2j i \<and> v \<le> run a b2j (Suc j)"
    and dg: "bi = bj" and I4: "\<forall>i'\<le>i. run a b2j i' \<le> bs"
    unfolding best outer_inv_def by simp_all
  show ?thesis
  proof (cases "b2j_get b2j (a ! i) = []")
    case True
    then have r0: "run a b2j (Suc i) = 0" by simp
    have "\<forall>i'\<le>Suc i. run a b2j i' \<le> bs"
    proof (intro allI impI)
      fix i' assume "i' \<le> Suc i"
      then consider "i' \<le> i" | "i' = Suc i" by linarith
      then show "run a b2j i' \<le> bs" using I4 r0 by cases auto
    qed
    with dg show ?thesis
      unfolding best outer_inv_def by (simp add: j2len_get_def True)
  next
    case False
    let ?js = "[j \<leftarrow> [0..<n]. a ! j = a ! i]"
    from False b2j[of "a ! i"] have js: "b2j_get b2j (a ! i) = ?js" by simp
    from False have good: "run a b2j (Suc i) = run a b2j i + 1" by simp
    have all: "\<forall>j\<in>set ?js. j < n \<and> run a b2j (Suc j) = run a b2j j + 1"
    proof
      fix j assume "j \<in> set ?js"
      then have "j < n" "a ! j = a ! i" by simp_all
      with False show "j < n \<and> run a b2j (Suc j) = run a b2j j + 1" by simp
    qed
    have srt: "sorted ?js" "distinct ?js" by (simp_all add: sorted_wrt_filter)
    have mem: "i \<in> set ?js" using i by simp
    have start: "diag_inv a b2j i ?js (Map.empty, best)"
      unfolding best diag_inv_def using dg I4 mem by simp
    obtain nj' bi' bj' bs' where
      res: "flm_inner j2len i 0 n ?js (Map.empty, best) = (nj', bi', bj', bs')"
      by (metis prod_cases4)
    from flm_inner_diag[OF outer_inv_get[OF I2] D good all srt start res]
    have fin: "bi' = bj'" "\<forall>i'\<le>i. run a b2j i' \<le> bs'"
      "run a b2j (Suc i) \<le> bs'" "nj' i = Some (run a b2j (Suc i))"
      "\<forall>j v. nj' j = Some v \<longrightarrow> v \<le> run a b2j (Suc i) \<and> v \<le> run a b2j (Suc j)"
      unfolding diag_inv_def by simp_all
    have "\<forall>i'\<le>Suc i. run a b2j i' \<le> bs'"
    proof (intro allI impI)
      fix i' assume "i' \<le> Suc i"
      then consider "i' \<le> i" | "i' = Suc i" by linarith
      then show "run a b2j i' \<le> bs'" using fin(2,3) by cases auto
    qed
    moreover have "j2len_get nj' (Suc i) = run a b2j (Suc i)"
      using fin(4) by (simp add: j2len_get_def)
    ultimately show ?thesis
      unfolding js res outer_inv_def using fin(1,5) by simp
  qed
qed

lemma flm_outer_diag:
  assumes b2j: "\<And>c. b2j_get b2j c = [] \<or> b2j_get b2j c = [j \<leftarrow> [0..<n]. a ! j = c]"
  shows "outer_inv a b2j i (j2len, best) \<Longrightarrow>
         \<exists>bi bs. flm_outer a b2j 0 n [i..<n] (j2len, best) = (bi, bi, bs)"
proof (induction "n - i" arbitrary: i j2len best)
  case 0
  obtain bi bj bs where best: "best = (bi, bj, bs)" by (cases best)
  from 0 show ?case unfolding best outer_inv_def by simp
next
  case (Suc m)
  then have lt: "i < n" by simp
  then have upt: "[i..<n] = i # [Suc i..<n]" by (simp add: upt_rec)
  obtain nj best' where
    inner: "flm_inner j2len i 0 n (b2j_get b2j (a ! i)) (Map.empty, best) = (nj, best')"
    by (cases "flm_inner j2len i 0 n (b2j_get b2j (a ! i)) (Map.empty, best)")
  from flm_row_diag[OF b2j lt Suc.prems] inner
  have inv': "outer_inv a b2j (Suc i) (nj, best')" by simp
  have m: "m = n - Suc i" using Suc.hyps(2) by simp
  from Suc.hyps(1)[OF m inv'] inner show ?case unfolding upt by simp
qed

lemma extend_left_diag: "extend_left a a 0 0 (x, x, s) = (0, 0, s + x)"
proof (induction x arbitrary: s)
  case 0
  then show ?case by simp
next
  case (Suc x)
  have "extend_left a a 0 0 (Suc x, Suc x, s) = extend_left a a 0 0 (x, x, s + 1)"
    by simp
  with Suc[of "s + 1"] show ?case by simp
qed

lemma extend_right_diag: "s \<le> n \<Longrightarrow> extend_right a a n n (0, 0, s) = (0, 0, n)"
proof (induction "n - s" arbitrary: s)
  case 0
  then show ?case by simp
next
  case (Suc m)
  then have lt: "s < n" by simp
  then have "extend_right a a n n (0, 0, s) = extend_right a a n n (0, 0, s + 1)"
    by simp
  moreover have "m = n - (s + 1)" "s + 1 \<le> n" using Suc.hyps(2) lt by simp_all
  ultimately show ?case using Suc.hyps(1)[of "s + 1"] by simp
qed

lemma find_longest_match_same:
  "find_longest_match a a (chain_b a) 0 (length a) 0 (length a) = (0, 0, length a)"
proof -
  let ?n = "length a"
  have start: "outer_inv a (chain_b a) 0 (Map.empty, 0, 0, 0)"
    by (simp add: outer_inv_def j2len_get_def)
  from flm_outer_diag[OF chain_b_positions start]
  obtain bi bs where o: "flm_outer a (chain_b a) 0 ?n [0..<?n] (Map.empty, 0, 0, 0) = (bi, bi, bs)"
    by blast
  have "best_in_a 0 (max 0 ?n) (flm_outer a (chain_b a) 0 ?n [0..<?n] (Map.empty, 0, 0, 0))"
    by (rule flm_outer_in_a) (simp_all add: j2len_le_def best_in_a_def)
  with o have le: "bs + bi \<le> ?n" by (simp add: best_in_a_def)
  show ?thesis
    unfolding find_longest_match_def o extend_left_diag by (rule extend_right_diag[OF le])
qed

lemma gmb_loop_same:
  "gmb_loop a a (chain_b a) [(0, length a, 0, length a)] []
     = (if length a = 0 then [] else [(0, 0, length a)])"
proof (cases "length a = 0")
  case True
  then have a: "a = []" by simp
  have f: "find_longest_match [] [] (chain_b []) 0 0 0 0 = (0, 0, 0)"
    using find_longest_match_same[of "[]"] by simp
  have "gmb_loop [] [] (chain_b []) [(0, 0, 0, 0)] [] = gmb_loop [] [] (chain_b []) [] []"
    by (subst gmb_loop.simps) (simp add: f)
  then show ?thesis unfolding a by (simp add: gmb_loop.simps)
next
  case False
  then have ne: "a \<noteq> []" by simp
  have "gmb_loop a a (chain_b a) [(0, length a, 0, length a)] []
          = gmb_loop a a (chain_b a) [] [(0, 0, length a)]"
    by (subst gmb_loop.simps) (simp add: find_longest_match_same ne)
  then show ?thesis using ne by (simp add: gmb_loop.simps)
qed

lemma ratio_same: "ratio a a = 1"
proof -
  have "sum_list (map block_size (get_matching_blocks a a)) = length a"
    unfolding get_matching_blocks_total gmb_loop_same by (simp add: block_size_def)
  then show ?thesis by (simp add: ratio_def calculate_ratio_def)
qed

section \<open>Lemmas about the comparators\<close>

lemma normalize_text_None [simp]: "normalize_text lib VNone ci st = None"
  by (simp add: normalize_text_def to_string_def)

lemma normalize_text_Some: "v \<noteq> VNone \<Longrightarrow> \<exists>s. normalize_text lib v ci st = Some s"
  by (simp add: normalize_text_def to_string_def Let_def)

lemma float_of_int_beyond: "float_of_int (10 ^ 400) = None"
  by code_simp

lemma safe_float_None [simp]: "safe_float lib VNone = None"
  by (simp add: safe_float_def)

lemma safe_float_beyond: "safe_float lib (VInt (10 ^ 400)) = None"
  unfolding safe_float_def py_float.simps float_of_int_beyond by simp

lemma parse_date_None [simp]: "parse_date lib VNone = None"
  by (simp add: parse_date_def)

lemma py_eq_None: "py_eq left VNone \<Longrightarrow> left = VNone"
  by (cases left) auto

lemma cmp_exact_ok:
  "\<exists>score dets. cmp_exact left right ctx params = Inr (score, dets) \<and> 0 \<le> score \<and> score \<le> 1 \<and>
     (left = VNone \<or> right = VNone \<longrightarrow> score = 0)"
  by (auto simp: cmp_exact_def dest: py_eq_None)

lemma cmp_icase_exact_ok:
  "\<exists>score dets. cmp_icase_exact lib left right ctx params = Inr (score, dets) \<and>
     0 \<le> score \<and> score \<le> 1 \<and> (left = VNone \<or> right = VNone \<longrightarrow> score = 0)"
  by (auto simp: cmp_icase_exact_def split: option.splits)

lemma cmp_ratio_ok:
  "\<exists>score dets. cmp_ratio lib left right ctx params = Inr (score, dets) \<and>
     0 \<le> score \<and> score \<le> 1 \<and> (left = VNone \<or> right = VNone \<longrightarrow> score = 0)"
  using ratio_bounds by (auto simp: cmp_ratio_def Let_def split: option.splits)

lemma card_ratio_bounds:
  assumes "finite A" and "finite B"
  shows "0 \<le> real (card (A \<inter> B)) / real (card (A \<union> B)) \<and>
         real (card (A \<inter> B)) / real (card (A \<union> B)) \<le> 1"
proof -
  have "card (A \<inter> B) \<le> card (A \<union> B)"
    by (rule card_mono) (use assms in auto)
  then have le: "real (card (A \<inter> B)) \<le> real (card (A \<union> B))" by simp
  show ?thesis
  proof (cases "card (A \<union> B) = 0")
    case True
    then show ?thesis by simp
  next
    case False
    then have "0 < real (card (A \<union> B))" by simp
    with le show ?thesis by (simp add: pos_divide_le_eq)
  qed
qed

lemma cmp_jaccard_ok:
  assumes "\<not> isl (py_int lib (params_get params ''min_token_len'' (VInt 2)))"
  shows "\<exists>score dets. cmp_jaccard lib left right ctx params = Inr (score, dets) \<and>
     0 \<le> score \<and> score \<le> 1 \<and>
     (left = VNone \<or> right = VNone \<or> (no_tokens lib params left \<and> no_tokens lib params right)
        \<longrightarrow> score = 0)"
proof -
  from assms obtain m where m: "py_int lib (params_get params ''min_token_len'' (VInt 2)) = Inr m"
    by (cases "py_int lib (params_get params ''min_token_len'' (VInt 2))") auto
  let ?ci = "py_bool (params_get params ''case_insensitive'' (VBool True))"
  show ?thesis
  proof (cases "normalize_text lib left ?ci True")
    case None
    then show ?thesis by (simp add: cmp_jaccard_def m Let_def)
  next
    case li: (Some li)
    show ?thesis
    proof (cases "normalize_text lib right ?ci True")
      case None
      then show ?thesis by (simp add: cmp_jaccard_def m li Let_def)
    next
      case ri: (Some ri)
      have ln: "left \<noteq> VNone" "right \<noteq> VNone" using li ri by auto
      have fin: "finite (tokens li m)" "finite (tokens ri m)" by (simp_all add: tokens_def)
      have nt: "no_tokens lib params left = (tokens li m = {})"
               "no_tokens lib params right = (tokens ri m = {})"
        by (simp_all add: no_tokens_def normalized_def m li ri)
      show ?thesis
      proof (cases "tokens li m = {} \<and> tokens ri m = {}")
        case True
        then show ?thesis by (simp add: cmp_jaccard_def m li ri Let_def)
      next
        case False
        with card_ratio_bounds[OF fin] ln nt show ?thesis
          by (simp add: cmp_jaccard_def m li ri Let_def)
      qed
    qed
  qed
qed

lemma cmp_contains_ok:
  "\<exists>score dets. cmp_contains lib left right ctx params = Inr (score, dets) \<and>
     0 \<le> score \<and> score \<le> 1 \<and>
     (left = VNone \<or> right = VNone \<or>
      py_str lib (params_get params ''direction'' (VStr ''left_in_right''))
        \<notin> {''left_in_right'', ''right_in_left''} \<longrightarrow> score = 0)"
  by (auto simp: cmp_contains_def Let_def split: option.splits)

lemma cmp_numeric_distance_ok:
  assumes "case py_float lib (params_get params ''max_distance'' (VFloat 1)) of
             Inl e \<Rightarrow> False | Inr d \<Rightarrow> 0 < d"
  shows "\<exists>score dets. cmp_numeric_distance lib left right ctx params = Inr (score, dets) \<and>
     0 \<le> score \<and> score \<le> 1 \<and>
     (left = VNone \<or> right = VNone \<or> safe_float lib left = None \<or> safe_float lib right = None
        \<longrightarrow> score = 0)"
proof -
  from assms obtain d where d: "py_float lib (params_get params ''max_distance'' (VFloat 1)) = Inr d"
    and pos: "0 < d"
    by (cases "py_float lib (params_get params ''max_distance'' (VFloat 1))") auto
  have "\<And>x. 0 \<le> x \<Longrightarrow> 1 - x / d \<le> 1" using pos by simp
  then have b: "\<And>lf rf. max 0 (1 - \<bar>lf - rf\<bar> / d) \<le> 1" by simp
  show ?thesis
    using pos b by (auto simp: cmp_numeric_distance_def d Let_def split: option.splits)
qed

lemma cmp_date_distance_days_ok:
  assumes "case py_int lib (params_get params ''max_days'' (VInt 1)) of
             Inl e \<Rightarrow> False | Inr m \<Rightarrow> 0 < m"
  shows "\<exists>score dets. cmp_date_distance_days lib left right ctx params = Inr (score, dets) \<and>
     0 \<le> score \<and> score \<le> 1 \<and>
     (left = VNone \<or> right = VNone \<or> parse_date lib left = None \<or> parse_date lib right = None
        \<longrightarrow> score = 0)"
proof -
  from assms obtain m where m: "py_int lib (params_get params ''max_days'' (VInt 1)) = Inr m"
    and pos: "0 < m"
    by (cases "py_int lib (params_get params ''max_days'' (VInt 1))") auto
  have "\<And>x. 0 \<le> x \<Longrightarrow> 1 - x / real_of_int m \<le> 1" using pos by simp
  then have b: "\<And>ld rd. max 0 (1 - real_of_int \<bar>ld - rd\<bar> / real_of_int m) \<le> 1" by simp
  show ?thesis
    using pos b by (auto simp: cmp_date_distance_days_def m Let_def split: option.splits)
qed

lemma normalize_builtin_names:
  "normalize_name ''exact'' = ''exact''"
  "normalize_name ''icase_exact'' = ''icase_exact''"
  "normalize_name ''ratio'' = ''ratio''"
  "normalize_name ''jaccard'' = ''jaccard''"
  "normalize_name ''contains'' = ''contains''"
  "normalize_name ''numeric_distance'' = ''numeric_distance''"
  "normalize_name ''date_distance_days'' = ''date_distance_days''"
  by code_simp+

lemma default_registry_entries:
  "\<exists>d. register_default_comparators lib empty_registry =
     Inr \<lparr>name_to_comparator =
            [(''exact'', cmp_exact), (''icase_exact'', cmp_icase_exact lib),
             (''ratio'', cmp_ratio lib), (''jaccard'', cmp_jaccard lib),
             (''contains'', cmp_contains lib),
             (''numeric_distance'', cmp_numeric_distance lib),
             (''date_distance_days'', cmp_date_distance_days lib)],
          name_to_description = d\<rparr>"
  by (simp add: register_default_comparators_def register_next_def register_def
        normalize_builtin_names empty_registry_def Let_def)

section \<open>Claims about the engine\<close>

text \<open>
  Claim C5. For a pair and a rule whose bindings all evaluate (no comparator raises) and
  whose weights do not sum to a negative number (the validation of \<open>Rule\<close> rejects a sum
  that is not positive), \<open>_score_pair\<close> returns a PairScore whose \<open>total_score\<close> is the
  weighted mean of the binding scores as the arithmetic of doubles gives it: the sum of
  score times weight over the bindings, accumulated in their order, divided by the sum
  of the weights, and 0 when the weights sum to 0. \<open>matched\<close> holds exactly when every
  \<open>must\<close> binding scored at least its effective threshold and that weighted mean is at
  least the rule's \<open>match_threshold\<close>, so a failing \<open>must\<close> binding gives
  \<open>matched = False\<close> whatever the aggregate is. \<open>field_scores\<close> holds one FieldScore for
  every binding, in order, with the fields, comparator and weight of the binding, the
  score and the details its comparator returned, and \<open>passed\<close> saying whether the score
  is at least the effective threshold; \<open>weight_sum\<close> is the sum of the weights and
  \<open>rule_name\<close> the name of the rule.
\<close>

theorem score_pair_weighted_mean:
  assumes "\<forall>fc\<in>set (rule_fields rule). \<exists>x. eval_binding reg left right rule fc = Inr x"
      and "0 \<le> weight_sum_of lib (rule_fields rule)"
  shows "\<exists>ps. score_pair lib reg left right rule = Inr ps \<and>
           ps_total_score ps = weighted_mean lib reg left right rule \<and>
           (ps_matched ps \<longleftrightarrow>
              (\<forall>fc\<in>set (rule_fields rule).
                  fc_must fc \<longrightarrow> effective_threshold fc \<le> binding_score reg left right rule fc) \<and>
              rule_match_threshold rule \<le> weighted_mean lib reg left right rule) \<and>
           ps_field_scores ps =
             map (\<lambda>fc. \<lparr>fs_left_field = fc_left_field fc, fs_right_field = fc_right_field fc,
                         fs_comparator = fc_comparator fc, fs_weight = fc_weight fc,
                         fs_score = binding_score reg left right rule fc,
                         fs_passed = (effective_threshold fc \<le> binding_score reg left right rule fc),
                         fs_details = binding_details reg left right rule fc\<rparr>) (rule_fields rule) \<and>
           ps_weight_sum ps = weight_sum_of lib (rule_fields rule) \<and>
           ps_rule_name ps = rule_name rule"
proof -
  let ?W = "weight_sum_of lib (rule_fields rule)"
  have fs: "(\<lambda>fc. mk_field_score fc (binding_score reg left right rule fc)
                     (binding_details reg left right rule fc))
            = (\<lambda>fc. \<lparr>fs_left_field = fc_left_field fc, fs_right_field = fc_right_field fc,
                      fs_comparator = fc_comparator fc, fs_weight = fc_weight fc,
                      fs_score = binding_score reg left right rule fc,
                      fs_passed = (effective_threshold fc \<le> binding_score reg left right rule fc),
                      fs_details = binding_details reg left right rule fc\<rparr>)"
    by (simp add: mk_field_score_def fc_passed_def effective_threshold_def)
  from assms(2) have "?W = 0 \<or> 0 < ?W" by linarith
  then show ?thesis
  proof
    assume z: "?W = 0"
    show ?thesis
      unfolding score_pair_def score_fields_ok[OF assms(1)] weighted_mean_def weighted_sum_of_def
        Let_def fs py_sum_weights
      by (simp add: z)
  next
    assume pos: "0 < ?W"
    then have nz: "?W \<noteq> 0" by simp
    show ?thesis
      unfolding score_pair_def score_fields_ok[OF assms(1)] weighted_mean_def weighted_sum_of_def
        Let_def fs py_sum_weights
      using pos nz by simp
  qed
qed

theorem score_pair_weighted_mean_witness:
  "\<exists>ps. score_pair lib0 ex_registry ex_left ex_right ex_rule_must = Inr ps \<and>
        ps_total_score ps = 3/4 \<and> rule_match_threshold ex_rule_must \<le> 3/4 \<and>
        \<not> ps_matched ps \<and>
        map fs_score (ps_field_scores ps) = [1, 0] \<and>
        map fs_passed (ps_field_scores ps) = [True, False]"
proof -
  have flds: "rule_fields ex_rule_must = [ex_fc_email, ex_fc_name_must]"
    by (simp add: ex_rule_must_def ex_rule_def)
  have e1: "eval_binding ex_registry ex_left ex_right ex_rule_must ex_fc_email
              = Inr (1, [(''match'', DBool True)])"
    by code_simp
  have e2: "eval_binding ex_registry ex_left ex_right ex_rule_must ex_fc_name_must
              = Inr (0, [(''match'', DBool False)])"
    by code_simp
  have h1: "\<forall>fc\<in>set (rule_fields ex_rule_must).
              \<exists>x. eval_binding ex_registry ex_left ex_right ex_rule_must fc = Inr x"
    by (simp add: flds e1 e2)
  have bs: "binding_score ex_registry ex_left ex_right ex_rule_must ex_fc_email = 1"
            "binding_score ex_registry ex_left ex_right ex_rule_must ex_fc_name_must = 0"
    by (simp_all add: binding_score_def e1 e2)
  have w: "fc_weight ex_fc_email = 3" "fc_weight ex_fc_name_must = 1"
          "fc_must ex_fc_name_must" "effective_threshold ex_fc_name_must = 1/2"
          "effective_threshold ex_fc_email = 0"
    by (simp_all add: ex_fc_email_def ex_fc_name_must_def ex_binding_def effective_threshold_def)
  have h2: "0 \<le> weight_sum_of lib0 (rule_fields ex_rule_must)"
    by (simp add: flds w weight_sum_of_def lib0_def)
  have wm: "weighted_mean lib0 ex_registry ex_left ex_right ex_rule_must = 3/4"
    by (simp add: weighted_mean_def weighted_sum_of_def weight_sum_of_def lib0_def flds bs w)
  have must: "\<not> (\<forall>fc\<in>set (rule_fields ex_rule_must).
              fc_must fc \<longrightarrow> effective_threshold fc \<le> binding_score ex_registry ex_left ex_right ex_rule_must fc)"
    by (simp add: flds bs w)
  have thr: "rule_match_threshold ex_rule_must \<le> 3/4"
    by (simp add: ex_rule_must_def ex_rule_def)
  from score_pair_weighted_mean[OF h1 h2] obtain ps where
    ps: "score_pair lib0 ex_registry ex_left ex_right ex_rule_must = Inr ps"
        "ps_total_score ps = weighted_mean lib0 ex_registry ex_left ex_right ex_rule_must"
        "ps_matched ps \<longleftrightarrow>
              (\<forall>fc\<in>set (rule_fields ex_rule_must).
                  fc_must fc \<longrightarrow> effective_threshold fc \<le> binding_score ex_registry ex_left ex_right ex_rule_must fc) \<and>
              rule_match_threshold ex_rule_must \<le> weighted_mean lib0 ex_registry ex_left ex_right ex_rule_must"
        "ps_field_scores ps =
             map (\<lambda>fc. \<lparr>fs_left_field = fc_left_field fc, fs_right_field = fc_right_field fc,
                         fs_comparator = fc_comparator fc, fs_weight = fc_weight fc,
                         fs_score = binding_score ex_registry ex_left ex_right ex_rule_must fc,
                         fs_passed = (effective_threshold fc \<le> binding_score ex_registry ex_left ex_right ex_rule_must fc),
                         fs_details = binding_details ex_registry ex_left ex_right ex_rule_must fc\<rparr>)
               (rule_fields ex_rule_must)"
    by blast
  from ps(3) must have nm: "\<not> ps_matched ps" by blast
  have f1: "map fs_score (ps_field_scores ps) = [1, 0]"
    unfolding ps(4) flds by (simp add: bs)
  have f2: "map fs_passed (ps_field_scores ps) = [True, False]"
    unfolding ps(4) flds by (simp add: bs w)
  from ps(1) ps(2) wm thr nm f1 f2 show ?thesis by auto
qed



text \<open>
  Claim C3, as stated, fails: two left records that share an identifier, one with a
  match and one without, put that identifier both among the keys of \<open>matches_index\<close>
  and in \<open>unmatched_left_ids\<close>.
\<close>

theorem one_to_many_left_ids_partition_counterexample:
  "\<not> isl ex_run_dup \<and>
   map (record_id lib0 ''id'') [ex_left, ex_left_dup] = [''L1'', ''L1''] \<and>
   map fst (er_matches_index (projr ex_run_dup)) = [''L1''] \<and>
   er_unmatched_left_ids (projr ex_run_dup) = [''L1'']"
  by code_simp

text \<open>
  Claim C3, amended. For a run with cardinality \<open>one_to_many\<close> that returns a result,
  every left identifier is a key of \<open>matches_index\<close> or an entry of
  \<open>unmatched_left_ids\<close> (never neither); and when the left records have pairwise
  distinct identifiers, no left identifier is in both.
\<close>

theorem one_to_many_left_ids_partition:
  assumes "match lib reg L R ruleset ONE_TO_MANY lf rf top_k = Inr res" and "l \<in> set L"
  shows "(record_id lib lf l \<in> fst ` set (er_matches_index res) \<or>
          record_id lib lf l \<in> set (er_unmatched_left_ids res)) \<and>
         (distinct (map (record_id lib lf) L) \<longrightarrow>
          \<not> (record_id lib lf l \<in> fst ` set (er_matches_index res) \<and>
             record_id lib lf l \<in> set (er_unmatched_left_ids res)))"
proof -
  let ?pair = "pair_left lib reg (rules ruleset)"
  let ?id = "record_id lib lf"
  from match_one_to_many_Inr[OF assms(1)] obtain mi um where
    loop: "index_loop ?pair ?id top_k R L ([], []) = Inr (mi, um)"
    and mi: "er_matches_index res = mi" and um: "er_unmatched_left_ids res = um"
    by blast
  from index_loop_keys[OF loop]
  have keys: "fst ` set mi = ?id ` {x \<in> set L. has_match ?pair R x}"
    and ums: "um = map ?id (filter (\<lambda>x. \<not> has_match ?pair R x) L)"
    by simp_all
  have one: "?id l \<in> fst ` set mi \<or> ?id l \<in> set um"
    using assms(2) unfolding keys ums by auto
  have two: "\<not> (?id l \<in> fst ` set mi \<and> ?id l \<in> set um)" if d: "distinct (map ?id L)"
  proof
    assume "?id l \<in> fst ` set mi \<and> ?id l \<in> set um"
    then obtain x y where x: "x \<in> set L" "has_match ?pair R x" "?id x = ?id l"
      and y: "y \<in> set L" "\<not> has_match ?pair R y" "?id y = ?id l"
      unfolding keys ums by auto
    from d have inj: "inj_on ?id (set L)" by (simp add: distinct_map)
    from x(3) y(3) have "?id x = ?id y" by simp
    from inj_onD[OF inj this x(1) y(1)] x(2) y(2) show False by simp
  qed
  from one two show ?thesis unfolding mi um by blast
qed

theorem one_to_many_left_ids_partition_witness:
  "ex_left \<in> set [ex_left, ex_left2] \<and>
   distinct (map (record_id lib0 ''id'') [ex_left, ex_left2]) \<and>
   \<not> isl ex_run_distinct \<and>
   (record_id lib0 ''id'' ex_left \<in> fst ` set (er_matches_index (projr ex_run_distinct)) \<or>
    record_id lib0 ''id'' ex_left \<in> set (er_unmatched_left_ids (projr ex_run_distinct))) \<and>
   \<not> (record_id lib0 ''id'' ex_left \<in> fst ` set (er_matches_index (projr ex_run_distinct)) \<and>
      record_id lib0 ''id'' ex_left \<in> set (er_unmatched_left_ids (projr ex_run_distinct)))"
proof -
  have run: "\<not> isl ex_run_distinct" by code_simp
  then have "ex_run_distinct = Inr (projr ex_run_distinct)" by simp
  then have eq: "match lib0 ex_registry [ex_left, ex_left2] [ex_right, ex_right2] ex_ruleset
                   ONE_TO_MANY ''id'' ''id'' None = Inr (projr ex_run_distinct)"
    by (simp add: ex_run_distinct_def)
  have mem: "ex_left \<in> set [ex_left, ex_left2]" by simp
  have d: "distinct (map (record_id lib0 ''id'') [ex_left, ex_left2])" by code_simp
  from one_to_many_left_ids_partition[OF eq mem] d run mem show ?thesis by blast
qed

text \<open>
  Claim C10. In a result, the unmatched list of the side that is not the index holds no
  identifier twice: it is a filter of the keys of the identifier-to-record dict of that
  side. The unmatched list of the index side holds the identifier of every index record
  without a match, one entry per record, so an identifier shared by two such records
  appears twice: in the run \<open>ex_run_unmatched\<close> the two left records have the identifier
  \<open>L1\<close> and the two right records the identifier \<open>R10\<close>.
\<close>

theorem unmatched_lists_duplicates:
  "(match lib reg L R ruleset cardinality lf rf top_k = Inr res \<longrightarrow>
      (cardinality = ONE_TO_MANY \<longrightarrow>
         distinct (er_unmatched_right_ids res) \<and>
         er_unmatched_left_ids res =
           map (record_id lib lf)
             (filter (\<lambda>x. \<not> has_match (pair_left lib reg (rules ruleset)) R x) L)) \<and>
      (cardinality = MANY_TO_ONE \<longrightarrow>
         distinct (er_unmatched_left_ids res) \<and>
         er_unmatched_right_ids res =
           map (record_id lib rf)
             (filter (\<lambda>x. \<not> has_match (pair_right lib reg (rules ruleset)) L x) R))) \<and>
   \<not> isl ex_run_unmatched \<and>
   er_unmatched_left_ids (projr ex_run_unmatched) = [''L1'', ''L1''] \<and>
   er_unmatched_right_ids (projr ex_run_unmatched) = [''R10'']"
proof -
  have "\<not> isl ex_run_unmatched \<and>
        er_unmatched_left_ids (projr ex_run_unmatched) = [''L1'', ''L1''] \<and>
        er_unmatched_right_ids (projr ex_run_unmatched) = [''R10'']"
    by code_simp
  with unmatched_lists[of lib reg L R ruleset cardinality lf rf top_k res] show ?thesis
    by blast
qed

theorem unmatched_lists_duplicates_witness:
  "\<not> isl ex_run_unmatched \<and>
   distinct (er_unmatched_right_ids (projr ex_run_unmatched)) \<and>
   er_unmatched_left_ids (projr ex_run_unmatched) =
     map (record_id lib0 ''id'')
       (filter (\<lambda>x. \<not> has_match (pair_left lib0 ex_registry (rules ex_ruleset)) [ex_right, ex_right] x)
          [ex_left_dup, ex_left_dup]) \<and>
   \<not> distinct (er_unmatched_left_ids (projr ex_run_unmatched))"
proof -
  have run: "\<not> isl ex_run_unmatched" by code_simp
  then have "ex_run_unmatched = Inr (projr ex_run_unmatched)" by simp
  then have eq: "match lib0 ex_registry [ex_left_dup, ex_left_dup] [ex_right, ex_right] ex_ruleset
                   ONE_TO_MANY ''id'' ''id'' None = Inr (projr ex_run_unmatched)"
    by (simp add: ex_run_unmatched_def)
  have dup: "\<not> distinct (er_unmatched_left_ids (projr ex_run_unmatched))" by code_simp
  from unmatched_lists_duplicates[of lib0 ex_registry "[ex_left_dup, ex_left_dup]"
      "[ex_right, ex_right]" ex_ruleset ONE_TO_MANY "''id''" "''id''" None "projr ex_run_unmatched"]
    eq run dup
  show ?thesis by blast
qed

text \<open>
  Claim C7, as stated, fails for a negative \<open>top_k\<close>: the slice \<open>matches[:top_k]\<close> then
  drops entries from the end, and with \<open>top_k = -1\<close> and two matches the stored list has
  one entry, which is more than \<open>top_k\<close>.
\<close>

theorem index_entries_sorted_truncated_counterexample:
  "\<not> isl (ex_run_top (Some (- 1))) \<and>
   map (length \<circ> snd) (er_matches_index (projr (ex_run_top (Some (- 1))))) = [1] \<and>
   \<not> int (length (snd (hd (er_matches_index (projr (ex_run_top (Some (- 1)))))))) \<le> - 1"
  by code_simp

text \<open>
  Claim C7, amended. Every list stored in \<open>matches_index\<close> is sorted descending by
  \<open>total_score\<close>, ties by \<open>rule_name\<close> ascending (\<open>score_order\<close>). It is made from the
  matched PairScores of one index record against all records of the other side, sorted
  in that order: the whole sorted list when \<open>top_k\<close> is not supplied, and its first
  \<open>top_k\<close> entries, hence at most \<open>top_k\<close> entries and the highest-scoring ones, when a
  non-negative \<open>top_k\<close> is supplied.
\<close>

theorem index_entries_sorted_truncated:
  assumes "match lib reg L R ruleset cardinality lf rf top_k = Inr res"
      and "(key, lst) \<in> set (er_matches_index res)"
  shows "sorted_wrt score_order lst \<and>
         (\<forall>k. top_k = Some k \<and> 0 \<le> k \<longrightarrow> int (length lst) \<le> k) \<and>
         (\<exists>x\<in>set (if cardinality = ONE_TO_MANY then L else R). \<exists>scores.
            record_id lib (if cardinality = ONE_TO_MANY then lf else rf) x = key \<and>
            index_scores lib reg (rules ruleset) cardinality x
              (if cardinality = ONE_TO_MANY then R else L) = Inr scores \<and>
            (top_k = None \<longrightarrow> lst = sort_key match_sort_key (filter ps_matched scores)) \<and>
            (\<forall>k. top_k = Some k \<and> 0 \<le> k \<longrightarrow>
                 lst = take (nat k) (sort_key match_sort_key (filter ps_matched scores))))"
proof -
  from match_entries[OF assms] obtain x scores where
    x: "x \<in> set (if cardinality = ONE_TO_MANY then L else R)"
    and xid: "record_id lib (if cardinality = ONE_TO_MANY then lf else rf) x = key"
    and sc: "index_scores lib reg (rules ruleset) cardinality x
               (if cardinality = ONE_TO_MANY then R else L) = Inr scores"
    and lst: "lst = truncate_top_k top_k (sort_key match_sort_key (filter ps_matched scores))"
    by blast
  let ?all = "sort_key match_sort_key (filter ps_matched scores)"
  have "sorted (map match_sort_key ?all)" by (rule sorted_sort_key)
  then have "sorted_wrt score_order ?all" by (rule iffD1[OF sorted_key_score_order])
  then have s: "sorted_wrt score_order lst" unfolding lst by (rule truncate_sorted)
  have t: "\<forall>k. top_k = Some k \<and> 0 \<le> k \<longrightarrow> lst = take (nat k) ?all"
    unfolding lst by (auto simp: truncate_nonneg)
  have n: "top_k = None \<longrightarrow> lst = ?all"
    unfolding lst by (simp add: truncate_top_k_def)
  have len: "\<forall>k. top_k = Some k \<and> 0 \<le> k \<longrightarrow> int (length lst) \<le> k"
  proof (intro allI impI)
    fix k assume k: "top_k = Some k \<and> 0 \<le> k"
    with t have "lst = take (nat k) ?all" by blast
    then have "length lst \<le> nat k" by simp
    with k show "int (length lst) \<le> k" by linarith
  qed
  from s len x xid sc t n show ?thesis by blast
qed

theorem index_entries_sorted_truncated_witness:
  "\<not> isl (ex_run_top (Some 1)) \<and>
   map fst (er_matches_index (projr (ex_run_top (Some 1)))) = [''L1''] \<and>
   map (map ps_right_id \<circ> snd) (er_matches_index (projr (ex_run_top None))) = [[''R13'', ''R10'']] \<and>
   map (map ps_right_id \<circ> snd) (er_matches_index (projr (ex_run_top (Some 1)))) = [[''R13'']] \<and>
   sorted_wrt score_order (snd (hd (er_matches_index (projr (ex_run_top (Some 1)))))) \<and>
   int (length (snd (hd (er_matches_index (projr (ex_run_top (Some 1))))))) \<le> 1"
proof -
  let ?res = "projr (ex_run_top (Some 1))"
  have run: "\<not> isl (ex_run_top (Some 1))" by code_simp
  then have "ex_run_top (Some 1) = Inr ?res" by simp
  then have eq: "match lib0 ex_registry [ex_left] [ex_right, ex_right3] \<lparr>rules = [ex_rule_both]\<rparr>
                   ONE_TO_MANY ''id'' ''id'' (Some 1) = Inr ?res"
    by (simp add: ex_run_top_def)
  have keys: "map fst (er_matches_index ?res) = [''L1'']" by code_simp
  have ids: "map (map ps_right_id \<circ> snd) (er_matches_index (projr (ex_run_top None))) = [[''R13'', ''R10'']]"
            "map (map ps_right_id \<circ> snd) (er_matches_index ?res) = [[''R13'']]"
    by code_simp+
  from keys obtain key lst where e: "er_matches_index ?res = [(key, lst)]"
    by (cases "er_matches_index ?res") auto
  then have mem: "(key, snd (hd (er_matches_index ?res))) \<in> set (er_matches_index ?res)"
    by simp
  from index_entries_sorted_truncated[OF eq mem]
  have "sorted_wrt score_order (snd (hd (er_matches_index ?res)))"
    and "int (length (snd (hd (er_matches_index ?res)))) \<le> 1"
    by simp_all
  with run keys ids show ?thesis by blast
qed

text \<open>
  Claim C8. Constructing a RuleSet from a non-empty list of rules succeeds and stores a
  permutation of the list sorted ascending by (priority, name). The engine evaluates the
  stored list in that order for every pair: every PairScore of a result is what
  \<open>_evaluate_rules_for_pair\<close> returns on the stored list for some pair, and when
  all rules score a pair and some rule matches it, the PairScore returned for the pair
  is that of a matching rule whose key (priority, name) is least among the matching
  rules.
\<close>

theorem ruleset_sorted_evaluation_order:
  assumes "v \<noteq> []"
  shows "\<exists>rset. RuleSet_init v = Inr rset \<and>
           sorted (map rule_key (rules rset)) \<and> mset (rules rset) = mset v \<and>
           ((\<forall>q\<in>set v. \<exists>s. score_pair lib reg left right q = Inr s) \<and>
            (\<exists>q\<in>set v. rule_matches lib reg left right q) \<longrightarrow>
              (\<exists>q\<in>set v. \<exists>ps.
                 evaluate_rules_for_pair lib reg left right (rules rset) = Inr ps \<and>
                 score_pair lib reg left right q = Inr ps \<and> ps_matched ps \<and>
                 (\<forall>q'\<in>set v. rule_matches lib reg left right q' \<longrightarrow> rule_key q \<le> rule_key q'))) \<and>
           (\<forall>res key lst ps.
              match lib reg L R rset cardinality lf rf top_k = Inr res \<and>
              (key, lst) \<in> set (er_matches_index res) \<and> ps \<in> set lst \<longrightarrow>
              (\<exists>l\<in>set L. \<exists>r\<in>set R.
                 evaluate_rules_for_pair lib reg l r (rules rset) = Inr ps))"
proof -
  define rset where "rset = \<lparr>rules = sort_key rule_key v\<rparr>"
  have init: "RuleSet_init v = Inr rset"
    using assms by (simp add: RuleSet_init_def validate_rules_non_empty_def rset_def)
  have rs: "rules rset = sort_key rule_key v" by (simp add: rset_def)
  have srt: "sorted (map rule_key (rules rset))" unfolding rs by (rule sorted_sort_key)
  have ms: "mset (rules rset) = mset v" unfolding rs by simp
  have st: "set (rules rset) = set v" unfolding rs by simp
  have first: "\<exists>q\<in>set v. \<exists>ps.
                 evaluate_rules_for_pair lib reg left right (rules rset) = Inr ps \<and>
                 score_pair lib reg left right q = Inr ps \<and> ps_matched ps \<and>
                 (\<forall>q'\<in>set v. rule_matches lib reg left right q' \<longrightarrow> rule_key q \<le> rule_key q')"
    if ok: "\<forall>q\<in>set v. \<exists>s. score_pair lib reg left right q = Inr s"
    and ex: "\<exists>q\<in>set v. rule_matches lib reg left right q"
  proof -
    from ex st have "\<exists>q\<in>set (rules rset). rule_matches lib reg left right q" by simp
    from split_list_first_prop[OF this] obtain pre q rest where
      split: "rules rset = pre @ q # rest" and q: "rule_matches lib reg left right q"
      and pre: "\<forall>x\<in>set pre. \<not> rule_matches lib reg left right x"
      by blast
    from split st have qin: "q \<in> set v" and prein: "set pre \<subseteq> set v" and restin: "set rest \<subseteq> set v"
      by auto
    from q obtain ps where ps: "score_pair lib reg left right q = Inr ps" "ps_matched ps"
      by (auto simp: rule_matches_def split: sum.splits)
    have unm: "\<forall>x\<in>set pre. \<exists>s. score_pair lib reg left right x = Inr s \<and> \<not> ps_matched s"
    proof
      fix x assume x: "x \<in> set pre"
      with prein ok obtain s where s: "score_pair lib reg left right x = Inr s" by blast
      with pre x have "\<not> ps_matched s" by (auto simp: rule_matches_def)
      with s show "\<exists>s. score_pair lib reg left right x = Inr s \<and> \<not> ps_matched s" by blast
    qed
    have ev: "evaluate_rules_for_pair lib reg left right (rules rset) = Inr ps"
      unfolding split by (rule evaluate_first_match[OF unm ps])
    have least: "\<forall>q'\<in>set v. rule_matches lib reg left right q' \<longrightarrow> rule_key q \<le> rule_key q'"
    proof (intro ballI impI)
      fix q' assume q': "q' \<in> set v" "rule_matches lib reg left right q'"
      with st split pre have "q' = q \<or> q' \<in> set rest" by auto
      moreover from srt have "\<forall>y\<in>set rest. rule_key q \<le> rule_key y"
        unfolding split by (simp add: sorted_append)
      ultimately show "rule_key q \<le> rule_key q'" by auto
    qed
    from qin ev ps least show ?thesis by blast
  qed
  have used: "\<forall>res key lst ps.
              match lib reg L R rset cardinality lf rf top_k = Inr res \<and>
              (key, lst) \<in> set (er_matches_index res) \<and> ps \<in> set lst \<longrightarrow>
              (\<exists>l\<in>set L. \<exists>r\<in>set R.
                 evaluate_rules_for_pair lib reg l r (rules rset) = Inr ps)"
    using match_scores_from_pairs by blast
  from init srt ms first used show ?thesis by blast
qed

theorem ruleset_sorted_evaluation_order_witness:
  "[ex_rule_half_b, ex_rule_email_nostop, ex_rule_name] \<noteq> [] \<and>
   map rule_key [ex_rule_half_b, ex_rule_email_nostop, ex_rule_name]
     = [(2, ''half_b''), (2, ''email''), (1, ''name'')] \<and>
   (\<exists>rset. RuleSet_init [ex_rule_half_b, ex_rule_email_nostop, ex_rule_name] = Inr rset \<and>
      map rule_key (rules rset) = [(1, ''name''), (2, ''email''), (2, ''half_b'')] \<and>
      sorted (map rule_key (rules rset)) \<and>
      (\<exists>ps. evaluate_rules_for_pair lib0 ex_registry ex_left ex_right (rules rset) = Inr ps \<and>
            ps_rule_name ps = ''email'' \<and> ps_matched ps))"
proof -
  let ?v = "[ex_rule_half_b, ex_rule_email_nostop, ex_rule_name]"
  have ne: "?v \<noteq> []" by simp
  have keys: "map rule_key ?v = [(2, ''half_b''), (2, ''email''), (1, ''name'')]"
    by (simp add: rule_key_def ex_rule_half_b_def ex_rule_email_nostop_def ex_rule_name_def ex_rule_def)
  have sk: "map rule_key (sort_key rule_key ?v) = [(1, ''name''), (2, ''email''), (2, ''half_b'')]"
    by code_simp
  have ok: "\<not> isl (score_pair lib0 ex_registry ex_left ex_right ex_rule_half_b)"
           "\<not> isl (score_pair lib0 ex_registry ex_left ex_right ex_rule_email_nostop)"
           "\<not> isl (score_pair lib0 ex_registry ex_left ex_right ex_rule_name)"
    by code_simp+
  have s1: "\<forall>q\<in>set ?v. \<exists>s. score_pair lib0 ex_registry ex_left ex_right q = Inr s"
    using ok by (simp add: not_isl_Inr)
  have m: "rule_matches lib0 ex_registry ex_left ex_right ex_rule_email_nostop" by code_simp
  have nm: "\<not> rule_matches lib0 ex_registry ex_left ex_right ex_rule_half_b"
           "\<not> rule_matches lib0 ex_registry ex_left ex_right ex_rule_name"
    by code_simp+
  have nmE: "\<And>q. q \<in> set ?v \<Longrightarrow> rule_matches lib0 ex_registry ex_left ex_right q \<Longrightarrow>
               q = ex_rule_email_nostop"
    using nm by auto
  have nameE: "rule_name ex_rule_email_nostop = ''email''"
    by (simp add: ex_rule_email_nostop_def ex_rule_def)
  from ruleset_sorted_evaluation_order[OF ne, of lib0 ex_registry ex_left ex_right]
  obtain rset where init: "RuleSet_init ?v = Inr rset"
    and srt: "sorted (map rule_key (rules rset))"
    and ev: "(\<forall>q\<in>set ?v. \<exists>s. score_pair lib0 ex_registry ex_left ex_right q = Inr s) \<and>
            (\<exists>q\<in>set ?v. rule_matches lib0 ex_registry ex_left ex_right q) \<longrightarrow>
              (\<exists>q\<in>set ?v. \<exists>ps.
                 evaluate_rules_for_pair lib0 ex_registry ex_left ex_right (rules rset) = Inr ps \<and>
                 score_pair lib0 ex_registry ex_left ex_right q = Inr ps \<and> ps_matched ps \<and>
                 (\<forall>q'\<in>set ?v. rule_matches lib0 ex_registry ex_left ex_right q' \<longrightarrow>
                     rule_key q \<le> rule_key q'))"
    by blast
  from init have rs: "rules rset = sort_key rule_key ?v"
    by (auto simp: RuleSet_init_def validate_rules_non_empty_def)
  from s1 m ev obtain q ps where q: "q \<in> set ?v"
    and e: "evaluate_rules_for_pair lib0 ex_registry ex_left ex_right (rules rset) = Inr ps"
    and sp: "score_pair lib0 ex_registry ex_left ex_right q = Inr ps" and pm: "ps_matched ps"
    by auto
  from sp pm have "rule_matches lib0 ex_registry ex_left ex_right q" by (simp add: rule_matches_def)
  from nmE[OF q this] have qe: "q = ex_rule_email_nostop" .
  have "ps_rule_name ps = rule_name q" using sp
    by (auto simp: score_pair_def Let_def split: sum.splits prod.splits)
  with qe nameE have "ps_rule_name ps = ''email''" by simp
  with ne keys init sk rs srt e pm show ?thesis by auto
qed

text \<open>
  Claim C9, as stated, fails: a comparator is looked up only when a binding that names it
  is evaluated. In \<open>ex_run_lazy\<close> the second rule names the comparator \<open>soundex\<close>, which
  is not registered, the first rule matches the only pair, and the call returns a
  result.
\<close>

theorem unregistered_comparator_fails_match_counterexample:
  "normalize_name ''soundex'' \<notin> fst ` set (name_to_comparator ex_registry) \<and>
   map (map fc_comparator \<circ> rule_fields) [ex_rule_email_nostop, ex_rule_unknown]
     = [[''exact''], [''soundex'']] \<and>
   \<not> isl ex_run_lazy \<and>
   map (map ps_right_id \<circ> snd) (er_matches_index (projr ex_run_lazy)) = [[''R10'']]"
  by code_simp

text \<open>
  Claim C9, amended. When the evaluation of some pair reaches a binding whose comparator
  name, trimmed and lower-cased, is not registered (the rules before it score the pair
  without matching, the bindings before it evaluate), the lookup raises \<open>KeyError\<close>
  carrying the name and the sorted list of the registered names, the evaluation of the
  pair raises it, and the \<open>match\<close> call returns no result: it raises the error of the
  first pair whose evaluation raises, in the order in which it visits the pairs (the
  records of the index side in turn, each with the records of the other side in turn).
\<close>

theorem unregistered_comparator_fails_match:
  assumes "normalize_name (fc_comparator fc) \<notin> fst ` set (name_to_comparator reg)"
      and "rules ruleset = pre @ rule # rest"
      and "\<forall>q\<in>set pre. \<exists>s. score_pair lib reg l r q = Inr s \<and> \<not> ps_matched s"
      and "rule_fields rule = fpre @ fc # frest"
      and "\<forall>f\<in>set fpre. \<exists>x. eval_binding reg l r rule f = Inr x"
      and "l \<in> set L" and "r \<in> set R"
  shows "get reg (fc_comparator fc) = Inl (KeyError (fc_comparator fc) (names reg)) \<and>
         sorted (names reg) \<and> set (names reg) = fst ` set (name_to_comparator reg) \<and>
         evaluate_rules_for_pair lib reg l r (rules ruleset)
           = Inl (KeyError (fc_comparator fc) (names reg)) \<and>
         (\<exists>e. match lib reg L R ruleset cardinality lf rf top_k = Inl e \<and>
             (if cardinality = ONE_TO_MANY
              then first_error (pair_left lib reg (rules ruleset)) L R e
              else first_error (pair_right lib reg (rules ruleset)) R L e))"
proof -
  let ?e = "KeyError (fc_comparator fc) (names reg)"
  have g: "get reg (fc_comparator fc) = Inl ?e" by (rule get_unregistered[OF assms(1)])
  have n: "sorted (names reg)" "set (names reg) = fst ` set (name_to_comparator reg)"
    by (simp_all add: names_def)
  have "score_pair lib reg l r rule = Inl ?e"
    by (rule score_pair_first_error[OF assms(4,5) eval_binding_unregistered[OF assms(1)]])
  from evaluate_first_error[OF assms(3) this]
  have ev: "evaluate_rules_for_pair lib reg l r (rules ruleset) = Inl ?e"
    unfolding assms(2) .
  from match_fails[OF assms(6,7) ev] obtain e where
    m: "match lib reg L R ruleset cardinality lf rf top_k = Inl e" by blast
  from match_first_error[OF m] m g n ev show ?thesis by blast
qed

theorem unregistered_comparator_fails_match_witness:
  "normalize_name ''soundex'' \<notin> fst ` set (name_to_comparator ex_registry) \<and>
   get ex_registry ''soundex'' = Inl (KeyError ''soundex'' [''exact'', ''icase_exact'']) \<and>
   evaluate_rules_for_pair lib0 ex_registry ex_left ex_right [ex_rule_name, ex_rule_unknown]
     = Inl (KeyError ''soundex'' [''exact'', ''icase_exact'']) \<and>
   ex_run_unknown = Inl (KeyError ''soundex'' [''exact'', ''icase_exact''])"
proof -
  let ?fc = "ex_binding ''name'' ''soundex'' 1 False None"
  have c: "fc_comparator ?fc = ''soundex''" by (simp add: ex_binding_def)
  have un: "normalize_name (fc_comparator ?fc) \<notin> fst ` set (name_to_comparator ex_registry)"
    by code_simp
  have rs: "rules \<lparr>rules = [ex_rule_name, ex_rule_unknown]\<rparr> = [ex_rule_name] @ ex_rule_unknown # []"
    by simp
  have "\<not> isl (score_pair lib0 ex_registry ex_left ex_right ex_rule_name)"
       "\<not> rule_matches lib0 ex_registry ex_left ex_right ex_rule_name"
    by code_simp+
  then have pre: "\<forall>q\<in>set [ex_rule_name].
               \<exists>s. score_pair lib0 ex_registry ex_left ex_right q = Inr s \<and> \<not> ps_matched s"
    by (simp add: unmatched_scoreI)
  have flds: "rule_fields ex_rule_unknown = [] @ ?fc # []"
    by (simp add: ex_rule_unknown_def ex_rule_def)
  have fpre: "\<forall>f\<in>set []. \<exists>x. eval_binding ex_registry ex_left ex_right ex_rule_unknown f = Inr x"
    by simp
  have nm: "names ex_registry = [''exact'', ''icase_exact'']" by code_simp
  have run: "ex_run_unknown = Inl (KeyError ''soundex'' [''exact'', ''icase_exact''])" by code_simp
  have mem: "ex_left \<in> set [ex_left]" "ex_right \<in> set [ex_right]" by simp_all
  from unregistered_comparator_fails_match[OF un rs pre flds fpre mem,
      where cardinality = ONE_TO_MANY and lf = "''id''" and rf = "''id''" and top_k = None]
    un run
  show ?thesis unfolding c nm by simp
qed

text \<open>
  Claim C1 on the code: \<open>match\<close> files a record under the value of the caller's
  identifier field, but \<open>_score_pair\<close> reads the field \<open>id\<close> whatever the caller named.
  With the identifier fields named \<open>cid\<close>, the PairScore stored under \<open>L1\<close> has the
  placeholder as \<open>left_id\<close> and \<open>right_id\<close>, and the matched right record \<open>R10\<close> is
  reported unmatched.
\<close>

theorem pair_score_ids_ignore_id_fields:
  "ex_run_cid =
     Inr \<lparr>er_cardinality = ONE_TO_MANY, er_indexed_by = ''left'',
          er_matches_index =
            [(''L1'',
              [\<lparr>ps_left_id = ''<no-id>'', ps_right_id = ''<no-id>'',
                ps_rule_name = ''email'', ps_total_score = 1, ps_matched = True,
                ps_field_scores =
                  [\<lparr>fs_left_field = ''email'', fs_right_field = ''email'',
                    fs_comparator = ''icase_exact'', fs_weight = 1, fs_score = 1,
                    fs_passed = True, fs_details = [(''match'', DBool True)]\<rparr>],
                ps_weight_sum = 1\<rparr>])],
          er_unmatched_left_ids = [], er_unmatched_right_ids = [''R10'']\<rparr> \<and>
   record_id lib0 ''cid'' ex_left_cid = ''L1'' \<and>
   record_id lib0 ''cid'' ex_right_cid = ''R10''"
  by code_simp

section \<open>Claims about the comparators\<close>

text \<open>
  Claim C6, as stated, fails for some parameter mappings: the comparators convert and
  use their numeric parameters unchecked. With \<open>max_distance = -1\<close> the built-in
  \<open>numeric_distance\<close> scores the values 0 and 1 at 2; with \<open>max_distance = 0\<close> it raises
  \<open>ZeroDivisionError\<close>; with the integer \<open>10 ^ 400\<close> as \<open>max_distance\<close>, which is beyond the
  doubles, it raises \<open>OverflowError\<close>; and \<open>jaccard\<close> with \<open>min_token_len = None\<close> raises
  \<open>TypeError\<close>.
\<close>

theorem builtin_comparators_score_range_counterexample:
  "\<not> isl (default_registry lib0) \<and>
   evaluate (projr (default_registry lib0)) ''numeric_distance'' (VInt 0) (VInt 1) None
       (Some (map_of [(''max_distance'', VInt (- 1))]))
     = Inr (2, [(''difference'', DNum 1), (''max_distance'', DNum (- 1))]) \<and>
   evaluate (projr (default_registry lib0)) ''numeric_distance'' (VInt 0) (VInt 1) None
       (Some (map_of [(''max_distance'', VInt 0)]))
     = Inl ZeroDivisionError \<and>
   evaluate (projr (default_registry lib0)) ''numeric_distance'' (VInt 0) (VInt 1) None
       (Some (map_of [(''max_distance'', VInt (10 ^ 400))]))
     = Inl OverflowError \<and>
   evaluate (projr (default_registry lib0)) ''jaccard'' (VStr ''acme corp'') (VStr ''acme'') None
       (Some (map_of [(''min_token_len'', VNone)]))
     = Inl TypeError"
  by code_simp

text \<open>
  Claim C6, amended. Every comparator that \<open>register_default_comparators\<close> registers,
  for every pair of input values, every context and every parameter mapping whose
  numeric parameter converts (\<open>min_token_len\<close> of \<open>jaccard\<close> to an int, \<open>max_distance\<close>
  of \<open>numeric_distance\<close> to a positive float, \<open>max_days\<close> of \<open>date_distance_days\<close> to a
  positive int; \<open>params_ok\<close>, which does not hold where \<open>int\<close> or \<open>float\<close> raises
  \<open>TypeError\<close>, \<open>ValueError\<close> or \<open>OverflowError\<close>), raises nothing and returns a score
  in [0, 1]; the score is exactly 0 when the input is missing or invalid
  (\<open>input_invalid\<close>: a null value; for the two distance comparators a value for which
  \<open>_safe_float\<close> or \<open>_parse_date\<close> returns \<open>None\<close>, an integer beyond the doubles among
  them; no token on both sides for \<open>jaccard\<close>; an unknown direction for \<open>contains\<close>).
\<close>

theorem builtin_comparators_score_range:
  assumes "register_default_comparators lib empty_registry = Inr reg"
      and "(name, f) \<in> set (name_to_comparator reg)"
      and "params_ok lib name params"
  shows "\<exists>score dets. f left right ctx params = Inr (score, dets) \<and>
           0 \<le> score \<and> score \<le> 1 \<and>
           (input_invalid lib name left right params \<longrightarrow> score = 0)"
proof -
  from default_registry_entries[of lib] assms(1) have
    "name_to_comparator reg =
       [(''exact'', cmp_exact), (''icase_exact'', cmp_icase_exact lib),
        (''ratio'', cmp_ratio lib), (''jaccard'', cmp_jaccard lib),
        (''contains'', cmp_contains lib),
        (''numeric_distance'', cmp_numeric_distance lib),
        (''date_distance_days'', cmp_date_distance_days lib)]"
    by auto
  with assms(2) have
    "(name, f) \<in> set [(''exact'', cmp_exact), (''icase_exact'', cmp_icase_exact lib),
        (''ratio'', cmp_ratio lib), (''jaccard'', cmp_jaccard lib),
        (''contains'', cmp_contains lib),
        (''numeric_distance'', cmp_numeric_distance lib),
        (''date_distance_days'', cmp_date_distance_days lib)]"
    by (simp only:)
  then have
    "(name = ''exact'' \<and> f = cmp_exact) \<or>
     (name = ''icase_exact'' \<and> f = cmp_icase_exact lib) \<or>
     (name = ''ratio'' \<and> f = cmp_ratio lib) \<or>
     (name = ''jaccard'' \<and> f = cmp_jaccard lib) \<or>
     (name = ''contains'' \<and> f = cmp_contains lib) \<or>
     (name = ''numeric_distance'' \<and> f = cmp_numeric_distance lib) \<or>
     (name = ''date_distance_days'' \<and> f = cmp_date_distance_days lib)"
    by (simp only: list.set insert_iff empty_iff prod.inject simp_thms)
  then show ?thesis
  proof (elim disjE conjE)
    assume c: "name = ''exact''" "f = cmp_exact"
    with cmp_exact_ok[of left right ctx params] show ?thesis
      by (simp add: input_invalid_def)
  next
    assume c: "name = ''icase_exact''" "f = cmp_icase_exact lib"
    with cmp_icase_exact_ok[of lib left right ctx params] show ?thesis
      by (simp add: input_invalid_def)
  next
    assume c: "name = ''ratio''" "f = cmp_ratio lib"
    with cmp_ratio_ok[of lib left right ctx params] show ?thesis
      by (simp add: input_invalid_def)
  next
    assume c: "name = ''jaccard''" "f = cmp_jaccard lib"
    with assms(3) have "\<not> isl (py_int lib (params_get params ''min_token_len'' (VInt 2)))"
      by (simp add: params_ok_def)
    from cmp_jaccard_ok[OF this, of left right ctx] c show ?thesis
      by (simp add: input_invalid_def)
  next
    assume c: "name = ''contains''" "f = cmp_contains lib"
    with cmp_contains_ok[of lib left right ctx params] show ?thesis
      by (simp add: input_invalid_def)
  next
    assume c: "name = ''numeric_distance''" "f = cmp_numeric_distance lib"
    with assms(3) have "case py_float lib (params_get params ''max_distance'' (VFloat 1)) of
             Inl e \<Rightarrow> False | Inr d \<Rightarrow> 0 < d"
      by (simp add: params_ok_def)
    from cmp_numeric_distance_ok[OF this, of left right ctx] c show ?thesis
      by (simp add: input_invalid_def)
  next
    assume c: "name = ''date_distance_days''" "f = cmp_date_distance_days lib"
    with assms(3) have "case py_int lib (params_get params ''max_days'' (VInt 1)) of
             Inl e \<Rightarrow> False | Inr m \<Rightarrow> 0 < m"
      by (simp add: params_ok_def)
    from cmp_date_distance_days_ok[OF this, of left right ctx] c show ?thesis
      by (simp add: input_invalid_def)
  qed
qed

theorem builtin_comparators_score_range_witness:
  "\<not> isl (register_default_comparators lib0 empty_registry) \<and>
   params_ok lib0 ''numeric_distance'' (Some (map_of [(''max_distance'', VInt 2)])) \<and>
   cmp_numeric_distance lib0 (VInt 0) (VInt 1) None (Some (map_of [(''max_distance'', VInt 2)]))
     = Inr (1 / 2, [(''difference'', DNum 1), (''max_distance'', DNum 2)]) \<and>
   (\<exists>score dets.
      cmp_numeric_distance lib0 (VInt 0) (VInt 1) None (Some (map_of [(''max_distance'', VInt 2)]))
        = Inr (score, dets) \<and> 0 \<le> score \<and> score \<le> 1) \<and>
   input_invalid lib0 ''numeric_distance'' (VStr ''n/a'') (VInt 1) (Some (map_of [(''max_distance'', VInt 2)])) \<and>
   (\<exists>dets.
      cmp_numeric_distance lib0 (VStr ''n/a'') (VInt 1) None (Some (map_of [(''max_distance'', VInt 2)]))
        = Inr (0, dets)) \<and>
   safe_float lib0 (VInt (10 ^ 400)) = None \<and>
   (\<exists>dets.
      cmp_numeric_distance lib0 (VInt (10 ^ 400)) (VInt 1) None (Some (map_of [(''max_distance'', VInt 2)]))
        = Inr (0, dets))"
proof -
  let ?p = "Some (map_of [(''max_distance'', VInt 2)])"
  from default_registry_entries[of lib0] obtain d where
    reg: "register_default_comparators lib0 empty_registry =
            Inr \<lparr>name_to_comparator =
                   [(''exact'', cmp_exact), (''icase_exact'', cmp_icase_exact lib0),
                    (''ratio'', cmp_ratio lib0), (''jaccard'', cmp_jaccard lib0),
                    (''contains'', cmp_contains lib0),
                    (''numeric_distance'', cmp_numeric_distance lib0),
                    (''date_distance_days'', cmp_date_distance_days lib0)],
                 name_to_description = d\<rparr>"
    by blast
  then have run: "\<not> isl (register_default_comparators lib0 empty_registry)" by simp
  have mem: "(''numeric_distance'', cmp_numeric_distance lib0) \<in>
               set (name_to_comparator
                      \<lparr>name_to_comparator =
                         [(''exact'', cmp_exact), (''icase_exact'', cmp_icase_exact lib0),
                          (''ratio'', cmp_ratio lib0), (''jaccard'', cmp_jaccard lib0),
                          (''contains'', cmp_contains lib0),
                          (''numeric_distance'', cmp_numeric_distance lib0),
                          (''date_distance_days'', cmp_date_distance_days lib0)],
                       name_to_description = d\<rparr>)"
    by simp
  have ok: "params_ok lib0 ''numeric_distance'' ?p" by code_simp
  have v: "cmp_numeric_distance lib0 (VInt 0) (VInt 1) None ?p
             = Inr (1 / 2, [(''difference'', DNum 1), (''max_distance'', DNum 2)])"
    by code_simp
  have inv: "input_invalid lib0 ''numeric_distance'' (VStr ''n/a'') (VInt 1) ?p"
    by (simp add: input_invalid_def safe_float_def lib0_def)
  from builtin_comparators_score_range[OF reg mem ok, of "VInt 0" "VInt 1" None]
  have a: "\<exists>score dets. cmp_numeric_distance lib0 (VInt 0) (VInt 1) None ?p = Inr (score, dets) \<and>
             0 \<le> score \<and> score \<le> 1"
    by blast
  from builtin_comparators_score_range[OF reg mem ok, of "VStr ''n/a''" "VInt 1" None] inv
  have b: "\<exists>dets. cmp_numeric_distance lib0 (VStr ''n/a'') (VInt 1) None ?p = Inr (0, dets)"
    by auto
  have big: "safe_float lib0 (VInt (10 ^ 400)) = None"
    by (rule safe_float_beyond)
  have inv': "input_invalid lib0 ''numeric_distance'' (VInt (10 ^ 400)) (VInt 1) ?p"
    using big unfolding input_invalid_def by simp
  from builtin_comparators_score_range[OF reg mem ok, of "VInt (10 ^ 400)" "VInt 1" None] inv'
  have c: "\<exists>dets. cmp_numeric_distance lib0 (VInt (10 ^ 400)) (VInt 1) None ?p = Inr (0, dets)"
    by auto
  from run ok v a inv b big c show ?thesis by blast
qed

text \<open>
  Claim C2, as stated, fails: \<open>SequenceMatcher.ratio\<close> depends on the order of its two
  arguments. The strings \<open>tide\<close> and \<open>diet\<close> score 0.25 in one order and 0.5 in the
  other.
\<close>

theorem cmp_ratio_symmetric_counterexample:
  "cmp_ratio lib0 (VStr ''tide'') (VStr ''diet'') None None = Inr (1 / 4, [(''ratio'', DNum (1 / 4))]) \<and>
   cmp_ratio lib0 (VStr ''diet'') (VStr ''tide'') None None = Inr (1 / 2, [(''ratio'', DNum (1 / 2))])"
  by code_simp

text \<open>
  Claim C2, amended. For every value \<open>a\<close> that is not null, and so for every non-empty
  normalized string, \<open>cmp_ratio(a, a)\<close> returns the score 1.0, with any parameters; and
  \<open>cmp_ratio(a, b)\<close> and \<open>cmp_ratio(b, a)\<close> return the same result when one of the values
  is null (both 0.0) or when both normalize to the same string (both 1.0).
\<close>

theorem cmp_ratio_identity:
  "(a \<noteq> VNone \<longrightarrow> cmp_ratio lib a a ctx params = Inr (1, [(''ratio'', DNum 1)])) \<and>
   (a = VNone \<or> b = VNone \<or> normalized lib params a = normalized lib params b \<longrightarrow>
      cmp_ratio lib a b ctx params = cmp_ratio lib b a ctx params)"
proof (intro conjI impI)
  assume "a \<noteq> VNone"
  from normalize_text_Some[OF this] obtain s where
    "normalize_text lib a (py_bool (params_get params ''case_insensitive'' (VBool True))) True = Some s"
    by blast
  then show "cmp_ratio lib a a ctx params = Inr (1, [(''ratio'', DNum 1)])"
    by (simp add: cmp_ratio_def Let_def ratio_same)
next
  assume h: "a = VNone \<or> b = VNone \<or> normalized lib params a = normalized lib params b"
  let ?ci = "py_bool (params_get params ''case_insensitive'' (VBool True))"
  show "cmp_ratio lib a b ctx params = cmp_ratio lib b a ctx params"
  proof (cases "normalize_text lib a ?ci True = normalize_text lib b ?ci True")
    case True
    have "cmp_ratio lib a b ctx params
            = (case (normalize_text lib b ?ci True, normalize_text lib b ?ci True) of
                 (Some li, Some ri) \<Rightarrow> (let r = ratio li ri in Inr (r, [(''ratio'', DNum r)]))
               | _ \<Rightarrow> Inr (0, [(''reason'', DStr ''missing'')]))"
      unfolding cmp_ratio_def Let_def True ..
    moreover have "cmp_ratio lib b a ctx params
            = (case (normalize_text lib b ?ci True, normalize_text lib b ?ci True) of
                 (Some li, Some ri) \<Rightarrow> (let r = ratio li ri in Inr (r, [(''ratio'', DNum r)]))
               | _ \<Rightarrow> Inr (0, [(''reason'', DStr ''missing'')]))"
      unfolding cmp_ratio_def Let_def True ..
    ultimately show ?thesis by simp
  next
    case False
    with h have "a = VNone \<or> b = VNone" by (auto simp: normalized_def)
    then show ?thesis by (auto simp: cmp_ratio_def Let_def split: option.splits)
  qed
qed

theorem cmp_ratio_identity_witness:
  "VStr ''Tide'' \<noteq> VNone \<and>
   cmp_ratio lib0 (VStr ''Tide'') (VStr ''Tide'') None None = Inr (1, [(''ratio'', DNum 1)]) \<and>
   normalized lib0 None (VStr ''Tide'') = normalized lib0 None (VStr '' tide '') \<and>
   cmp_ratio lib0 (VStr ''Tide'') (VStr '' tide '') None None
     = cmp_ratio lib0 (VStr '' tide '') (VStr ''Tide'') None None"
proof -
  have n: "normalized lib0 None (VStr ''Tide'') = normalized lib0 None (VStr '' tide '')"
    by code_simp
  from cmp_ratio_identity[of "VStr ''Tide''" lib0 None None "VStr '' tide ''"] n
  show ?thesis by simp
qed

end
